theory Spec2Isabelle
  imports Complex_Main
begin

section \<open>String primitives of the C++ standard library used by the tools\<close>

text \<open>
  Lines are \<open>std::string\<close>s, modelled as \<open>string\<close> (a list of bytes). The value
  \<open>npos\<close> of \<open>find\<close> and \<open>rfind\<close> is \<open>None\<close>. An exception thrown by
  \<open>std::stoull\<close> is never caught in the sources, so it ends the process; it is a value of
  type \<open>exn\<close>.
\<close>

abbreviation TAB :: char where
  "TAB \<equiv> CHR 0x09"

datatype exn = Invalid_argument | Out_of_range

text \<open>How a run of \<open>main\<close> ends early: a \<open>return\<close> with a status, or an uncaught exception.\<close>

datatype abort = Return nat | Uncaught exn

text \<open>\<open>index_of c s\<close> is \<open>s.find(c)\<close>; \<open>find_char c s pos\<close> is \<open>s.find(c, pos)\<close>.\<close>

fun index_of :: "char \<Rightarrow> string \<Rightarrow> nat option" where
  "index_of c [] = None"
| "index_of c (x # xs) = (if x = c then Some 0 else map_option Suc (index_of c xs))"

definition find_char :: "char \<Rightarrow> string \<Rightarrow> nat \<Rightarrow> nat option" where
  "find_char c s pos = map_option (\<lambda>i. i + pos) (index_of c (drop pos s))"

text \<open>\<open>starts_with p s\<close> is the idiom \<open>s.rfind(p, 0) == 0\<close>.\<close>

fun starts_with :: "string \<Rightarrow> string \<Rightarrow> bool" where
  "starts_with [] s = True"
| "starts_with (p # ps) [] = False"
| "starts_with (p # ps) (c # cs) = (p = c \<and> starts_with ps cs)"

text \<open>\<open>find_sub pat s\<close> is \<open>s.find(pat)\<close>, \<open>find_sub_from pat s pos\<close> is \<open>s.find(pat, pos)\<close>
  and \<open>rfind_sub pat s\<close> is \<open>s.rfind(pat)\<close>, for a string \<open>pat\<close>.\<close>

fun find_sub :: "string \<Rightarrow> string \<Rightarrow> nat option" where
  "find_sub pat [] = (if pat = [] then Some 0 else None)"
| "find_sub pat (x # xs) =
     (if starts_with pat (x # xs) then Some 0 else map_option Suc (find_sub pat xs))"

definition find_sub_from :: "string \<Rightarrow> string \<Rightarrow> nat \<Rightarrow> nat option" where
  "find_sub_from pat s pos =
     (if pos \<le> length s then map_option (\<lambda>i. i + pos) (find_sub pat (drop pos s)) else None)"

fun rfind_sub :: "string \<Rightarrow> string \<Rightarrow> nat option" where
  "rfind_sub pat [] = (if pat = [] then Some 0 else None)"
| "rfind_sub pat (x # xs) =
     (case rfind_sub pat xs of
        Some i \<Rightarrow> Some (Suc i)
      | None \<Rightarrow> if starts_with pat (x # xs) then Some 0 else None)"

text \<open>\<open>substr s pos n\<close> is \<open>s.substr(pos, n)\<close> and \<open>substr_from s pos\<close> is \<open>s.substr(pos)\<close>,
  both used in the sources only with \<open>pos \<le> s.size()\<close>.\<close>

definition substr :: "string \<Rightarrow> nat \<Rightarrow> nat \<Rightarrow> string" where
  "substr s pos n = take n (drop pos s)"

definition substr_from :: "string \<Rightarrow> nat \<Rightarrow> string" where
  "substr_from s pos = drop pos s"

text \<open>
  \<open>std::stoull(s)\<close> in base 10, as \<open>strtoull\<close> does it: leading white space is skipped, one
  sign is accepted, the longest run of digits is read. No digit throws
  \<open>std::invalid_argument\<close>, a magnitude above \<open>ULLONG_MAX\<close> throws \<open>std::out_of_range\<close>,
  and a minus sign negates the value in 64-bit unsigned arithmetic.
\<close>

definition is_space :: "char \<Rightarrow> bool" where
  "is_space c = (c = CHR '' '' \<or> c = CHR 0x09 \<or> c = CHR 0x0A \<or> c = CHR 0x0B
                 \<or> c = CHR 0x0C \<or> c = CHR 0x0D)"

definition is_digit :: "char \<Rightarrow> bool" where
  "is_digit c = (48 \<le> (of_char c :: nat) \<and> (of_char c :: nat) \<le> 57)"

definition digit_val :: "char \<Rightarrow> nat" where
  "digit_val c = of_char c - 48"

fun digits_val :: "nat \<Rightarrow> string \<Rightarrow> nat" where
  "digits_val acc [] = acc"
| "digits_val acc (c # cs) = digits_val (acc * 10 + digit_val c) cs"

definition strip_sign :: "string \<Rightarrow> bool \<times> string" where
  "strip_sign s =
     (case s of
        [] \<Rightarrow> (False, [])
      | c # cs \<Rightarrow> if c = CHR ''-'' then (True, cs)
                  else if c = CHR ''+'' then (False, cs) else (False, s))"

definition stoull :: "string \<Rightarrow> exn + nat" where
  "stoull s =
     (let (neg, body) = strip_sign (dropWhile is_space s);
          ds = takeWhile is_digit body;
          v = digits_val 0 ds
      in if ds = [] then Inl Invalid_argument
         else if 2 ^ 64 \<le> v then Inl Out_of_range
         else Inr (if neg then (2 ^ 64 - v) mod 2 ^ 64 else v))"

text \<open>\<open>std::to_string\<close> of an unsigned integer.\<close>

definition digit_char :: "nat \<Rightarrow> char" where
  "digit_char d = ''0123456789'' ! d"

fun to_string :: "nat \<Rightarrow> string" where
  "to_string n = (if n < 10 then [digit_char n] else to_string (n div 10) @ [digit_char (n mod 10)])"

declare to_string.simps [simp del]

text \<open>
  \<open>split_tab s\<close> is the list of the parts that the loop
  \<open>while (std::getline(parts, part, '\t'))\<close> reads from a stream holding \<open>s\<close>: the stream
  fails when no character is left, so an empty part after the last tab is not read.
  \<open>join_tab\<close> is what the loop writes: a tab before every part but the first.
\<close>

function split_tab :: "string \<Rightarrow> string list" where
  "split_tab [] = []"
| "split_tab (c # cs) =
     (let part = takeWhile (\<lambda>x. x \<noteq> TAB) (c # cs);
          rest = dropWhile (\<lambda>x. x \<noteq> TAB) (c # cs)
      in case rest of [] \<Rightarrow> [part] | t # rest' \<Rightarrow> part # split_tab rest')"
  by pat_completeness auto

termination
proof (relation "measure length")
  show "wf (measure length)" by simp
next
  fix c :: char and cs part rest t rest'
  assume r: "rest = dropWhile (\<lambda>x. x \<noteq> TAB) (c # cs)" and "rest = t # rest'"
  then have "length (t # rest') \<le> length (c # cs)"
    using length_dropWhile_le [of "\<lambda>x. x \<noteq> TAB" "c # cs"] by simp
  then show "(rest', c # cs) \<in> measure length" by simp
qed

declare split_tab.simps(2) [simp del]

fun join_tab :: "string list \<Rightarrow> string" where
  "join_tab [] = []"
| "join_tab [p] = p"
| "join_tab (p # q # ps) = p @ TAB # join_tab (q # ps)"


section \<open>Shared pieces of the three filters\<close>

unbundle bit_operations_syntax

text \<open>
  \<open>check_flag\<close> of \<^verbatim>\<open>filter_reverse_reads.cpp\<close>: the FLAG column is the text between the first
  two tabs; with fewer than two tabs the answer is \<open>false\<close>. \<open>primary_flag\<close> of
  \<^verbatim>\<open>select_transcripts.cpp\<close> is the same code with the flag 256 written in.
\<close>

definition check_flag :: "string \<Rightarrow> nat \<Rightarrow> exn + bool" where
  "check_flag line flag =
     (case find_char TAB line 0 of
        None \<Rightarrow> Inr False
      | Some from0 \<Rightarrow>
          (let from = from0 + 1 in
           case find_char TAB line from of
             None \<Rightarrow> Inr False
           | Some to \<Rightarrow>
               (case stoull (substr line from (to - from)) of
                  Inl e \<Rightarrow> Inl e
                | Inr v \<Rightarrow> Inr (v AND flag = 0))))"

definition forward_flag :: "string \<Rightarrow> exn + bool" where
  "forward_flag line = check_flag line 16"

definition primary_flag :: "string \<Rightarrow> exn + bool" where
  "primary_flag line = check_flag line 256"

text \<open>
  \<open>extract_transcript_id\<close>: the third column (RNAME), or the empty string when the line has
  fewer than three tabs. The functions of this name in \<^verbatim>\<open>filter_ambiguous_genes.cpp\<close> and
  \<^verbatim>\<open>select_transcripts.cpp\<close> compute the same positions.
\<close>

definition extract_transcript_id :: "string \<Rightarrow> string" where
  "extract_transcript_id line =
     (case find_char TAB line 0 of
        None \<Rightarrow> []
      | Some t1 \<Rightarrow>
          (case find_char TAB line (t1 + 1) of
             None \<Rightarrow> []
           | Some t2 \<Rightarrow>
               (let from = t2 + 1 in
                case find_char TAB line from of
                  None \<Rightarrow> []
                | Some to \<Rightarrow> substr line from (to - from))))"

text \<open>
  Reading the multiplicity of an alignment line: the last occurrence of \<^verbatim>\<open>\tNH:i:\<close>, then
  \<open>stoull\<close> of the text up to the next tab or the end of the line. \<open>None\<close> is a missing tag.
\<close>

definition read_count :: "string \<Rightarrow> (exn + nat) option" where
  "read_count line =
     (case rfind_sub (TAB # ''NH:i:'') line of
        None \<Rightarrow> None
      | Some p \<Rightarrow>
          (let count = p + 6 in
           Some (stoull (case find_char TAB line count of
                           None \<Rightarrow> substr_from line count
                         | Some count_end \<Rightarrow> substr line count (count_end - count)))))"

text \<open>
  The mapping quality \<^verbatim>\<open>(size_t)(group.size() <= 1 ? 255 : (-10 * std::log10(1 - 1.0 / group.size())))\<close>.
  The double arithmetic is taken over the reals; the conversion to \<open>size_t\<close> drops the
  fraction of a value that is never negative.
\<close>

definition mapq_value :: "nat \<Rightarrow> nat" where
  "mapq_value sz = nat \<lfloor>if sz \<le> 1 then 255 else - 10 * log 10 (1 - 1 / real sz)\<rfloor>"

text \<open>
  Choosing a new primary alignment needs the CIGAR of every kept line: five times
  \<open>index = find('\t', index + 1)\<close> from \<open>index = 0\<close> (status 12 when a tab is missing), then
  one more tab (status 11).
\<close>

fun skip_tabs :: "nat \<Rightarrow> string \<Rightarrow> nat \<Rightarrow> nat option" where
  "skip_tabs 0 s index = Some index"
| "skip_tabs (Suc n) s index =
     (case find_char TAB s (index + 1) of None \<Rightarrow> None | Some i \<Rightarrow> skip_tabs n s i)"

definition cigar_of :: "string \<Rightarrow> abort + string" where
  "cigar_of s =
     (case skip_tabs 5 s 0 of
        None \<Rightarrow> Inl (Return 12)
      | Some index \<Rightarrow>
          (case find_char TAB s (index + 1) of
             None \<Rightarrow> Inl (Return 11)
           | Some index2 \<Rightarrow> Inr (substr s index (index2 - index))))"

fun cigars_of :: "string list \<Rightarrow> abort + string list" where
  "cigars_of [] = Inr []"
| "cigars_of (g # gs) =
     (case cigar_of g of
        Inl a \<Rightarrow> Inl a
      | Inr c \<Rightarrow> (case cigars_of gs of Inl a \<Rightarrow> Inl a | Inr cs \<Rightarrow> Inr (c # cs)))"

text \<open>The number of \<^verbatim>\<open>Not implemented yet\<close> messages: one for each later CIGAR that differs
  from the first.\<close>

definition not_implemented :: "string list \<Rightarrow> nat" where
  "not_implemented cigars = length (filter (\<lambda>c. c \<noteq> hd cigars) (tl cigars))"

text \<open>
  Rewriting one part of line \<open>i\<close> (counted from 0); \<open>j\<close> is the number of the part, counted
  from 1, and \<open>is_primary\<close> is the test \<open>primary == i\<close>.
\<close>

definition rewrite_part :: "nat \<Rightarrow> string \<Rightarrow> bool \<Rightarrow> nat \<Rightarrow> nat \<Rightarrow> string \<Rightarrow> exn + string" where
  "rewrite_part sz mapq is_primary i j part =
     (if j = 2 \<and> is_primary then
        (case stoull part of Inl e \<Rightarrow> Inl e | Inr v \<Rightarrow> Inr (to_string (v XOR 256)))
      else if j = 5 then Inr mapq
      else if starts_with ''NH:i:'' part then Inr (''NH:i:'' @ to_string sz)
      else if starts_with ''HI:i:'' part then Inr (''HI:i:'' @ to_string (i + 1))
      else Inr part)"

fun rewrite_parts :: "nat \<Rightarrow> string \<Rightarrow> bool \<Rightarrow> nat \<Rightarrow> nat \<Rightarrow> string list \<Rightarrow> exn + string list" where
  "rewrite_parts sz mapq is_primary i j [] = Inr []"
| "rewrite_parts sz mapq is_primary i j (p # ps) =
     (case rewrite_part sz mapq is_primary i j p of
        Inl e \<Rightarrow> Inl e
      | Inr p' \<Rightarrow>
          (case rewrite_parts sz mapq is_primary i (j + 1) ps of
             Inl e \<Rightarrow> Inl e
           | Inr ps' \<Rightarrow> Inr (p' # ps')))"

definition rewrite_line :: "nat \<Rightarrow> string \<Rightarrow> nat option \<Rightarrow> nat \<Rightarrow> string \<Rightarrow> exn + string" where
  "rewrite_line sz mapq primary i line =
     (case rewrite_parts sz mapq (primary = Some i) i 1 (split_tab line) of
        Inl e \<Rightarrow> Inl e
      | Inr ps \<Rightarrow> Inr (join_tab ps))"

text \<open>The loop over the kept lines; an exception ends the run after the lines written so far.\<close>

fun rewrite_lines :: "nat \<Rightarrow> string \<Rightarrow> nat option \<Rightarrow> nat \<Rightarrow> string list \<Rightarrow> string list \<times> abort option" where
  "rewrite_lines sz mapq primary i [] = ([], None)"
| "rewrite_lines sz mapq primary i (g # gs) =
     (case rewrite_line sz mapq primary i g of
        Inl e \<Rightarrow> ([], Some (Uncaught e))
      | Inr l \<Rightarrow>
          (case rewrite_lines sz mapq primary (i + 1) gs of (out, a) \<Rightarrow> (l # out, a)))"

text \<open>
  The branch taken when a line of the group was left out. \<open>primary\<close> is \<open>None\<close> for the
  value \<open>-1\<close>. The result is the lines written, the number of
  \<^verbatim>\<open>Not implemented yet\<close> messages, and how the run ended early, if it did.
\<close>

definition rewrite_group :: "string list \<Rightarrow> nat option \<Rightarrow> string list \<times> nat \<times> abort option" where
  "rewrite_group grp primary =
     (case primary of
        None \<Rightarrow>
          (case cigars_of grp of
             Inl a \<Rightarrow> ([], 0, Some a)
           | Inr cigars \<Rightarrow>
               (case rewrite_lines (length grp) (to_string (mapq_value (length grp)))
                       (Some 0) 0 grp of
                  (out, a) \<Rightarrow> (out, not_implemented cigars, a)))
      | Some p \<Rightarrow>
          (case rewrite_lines (length grp) (to_string (mapq_value (length grp)))
                  None 0 grp of
             (out, a) \<Rightarrow> (out, 0, a)))"

text \<open>
  One turn of the loop \<open>while (std::getline(input, line))\<close> either ends the run
  (\<open>Stop\<close>, with the lines written in this turn) or goes on (\<open>Next\<close>, with the lines written
  and the number of further lines read from the input in this turn).
\<close>

datatype step = Stop "string list" abort | Next "string list" nat

text \<open>
  What the output file holds when the run ends early. A \<open>return\<close> from \<open>main\<close> destroys the
  \<open>std::ofstream\<close>, which writes its buffer to the file. An uncaught exception ends the
  process by \<open>std::terminate\<close> and the stream is never closed; the sources flush it only after
  the loop, so the lines written so far are still in its buffer (taken to be large enough
  for the lines of one run) and the file holds none of them.
\<close>

fun filed :: "string list \<Rightarrow> abort \<Rightarrow> string list" where
  "filed out (Return status) = out"
| "filed out (Uncaught e) = []"

text \<open>The loop over the lines of one input file: what the output file holds in the end, and
  how the run ended early, if it did.\<close>

function run :: "(string \<Rightarrow> string list \<Rightarrow> step) \<Rightarrow> string list \<Rightarrow> string list \<times> abort option" where
  "run f [] = ([], None)"
| "run f (line # rest) =
     (case f line rest of
        Stop out a \<Rightarrow> (filed out a, Some a)
      | Next out n \<Rightarrow>
          (case run f (drop n rest) of
             (out', None) \<Rightarrow> (out @ out', None)
           | (out', Some a) \<Rightarrow> (filed (out @ out') a, Some a)))"
  by pat_completeness auto

termination
  by (relation "measure (\<lambda>(f, xs). length xs)") auto

text \<open>The loop over the pairs of file names; a file is the list of its lines. The files
  of the pairs before the one in which the run ends early were closed and hold their lines.\<close>

fun run_pairs :: "(string \<Rightarrow> string list \<Rightarrow> step) \<Rightarrow> (string \<Rightarrow> string list) \<Rightarrow> string list
    \<Rightarrow> (string \<times> string list) list \<times> abort" where
  "run_pairs f fs (inp # outp # more) =
     (case run f (fs inp) of
        (out, Some a) \<Rightarrow> ([(outp, out)], a)
      | (out, None) \<Rightarrow> (case run_pairs f fs more of (files, a) \<Rightarrow> ((outp, out) # files, a)))"
| "run_pairs f fs more = ([], Return 0)"

section \<open>filter\_reverse\_reads\<close>

text \<open>Gathering a group: the kept lines, the index of the last kept primary line, and
  whether a line was left out.\<close>

fun frr_collect :: "string list \<Rightarrow> string list \<times> nat option \<times> bool
    \<Rightarrow> exn + (string list \<times> nat option \<times> bool)" where
  "frr_collect [] st = Inr st"
| "frr_collect (line # ls) (grp, primary, modification) =
     (case forward_flag line of
        Inl e \<Rightarrow> Inl e
      | Inr False \<Rightarrow> frr_collect ls (grp, primary, True)
      | Inr True \<Rightarrow>
          (case primary_flag line of
             Inl e \<Rightarrow> Inl e
           | Inr p \<Rightarrow>
               frr_collect ls
                 (grp @ [line], if p then Some (length grp) else primary, modification)))"

definition frr_group :: "string \<Rightarrow> string list \<Rightarrow> nat \<Rightarrow> step" where
  "frr_group line rest count =
     (case frr_collect (line # take (count - 1) rest) ([], None, False) of
        Inl e \<Rightarrow> Stop [] (Uncaught e)
      | Inr (grp, primary, modification) \<Rightarrow>
          if length rest < count - 1 then Stop [] (Return 17)
          else if modification then
            (case rewrite_group grp primary of
               (out, w, Some a) \<Rightarrow> Stop out a
             | (out, w, None) \<Rightarrow> Next out (count - 1))
          else Next grp (count - 1))"

definition frr_step :: "string \<Rightarrow> string list \<Rightarrow> step" where
  "frr_step line rest =
     (if line = [] then Next [] 0
      else if hd line = CHR ''@'' then Next [line] 0
      else case read_count line of
          None \<Rightarrow> Next [] 0
        | Some (Inl e) \<Rightarrow> Stop [] (Uncaught e)
        | Some (Inr count) \<Rightarrow>
            if count = 1 then
              (case forward_flag line of
                 Inl e \<Rightarrow> Stop [] (Uncaught e)
               | Inr keep \<Rightarrow> Next (if keep then [line] else []) 0)
            else frr_group line rest count)"

text \<open>\<open>main\<close>: whether the usage text was printed, the files written, and the exit status.\<close>

definition frr_main :: "string list \<Rightarrow> (string \<Rightarrow> string list)
    \<Rightarrow> bool \<times> (string \<times> string list) list \<times> abort" where
  "frr_main argv fs =
     (let argc = length argv in
      if argc = 1 \<or> argc mod 2 \<noteq> 1 then (True, [], Return 0)
      else case run_pairs frr_step fs (drop 1 argv) of (files, a) \<Rightarrow> (False, files, a))"


section \<open>select\_transcripts\<close>

text \<open>\<open>transcript_ids\<close> is the set of the lines of the first file.\<close>

fun sel_collect :: "string set \<Rightarrow> string list \<Rightarrow> string list \<times> nat option
    \<Rightarrow> exn + (string list \<times> nat option)" where
  "sel_collect ids [] st = Inr st"
| "sel_collect ids (line # ls) (grp, primary) =
     (if extract_transcript_id line \<in> ids then
        (case primary_flag line of
           Inl e \<Rightarrow> Inl e
         | Inr p \<Rightarrow>
             sel_collect ids ls (grp @ [line], if p then Some (length grp) else primary))
      else sel_collect ids ls (grp, primary))"

definition sel_group :: "string set \<Rightarrow> string \<Rightarrow> string list \<Rightarrow> nat \<Rightarrow> step" where
  "sel_group ids line rest count =
     (case sel_collect ids (line # take (count - 1) rest) ([], None) of
        Inl e \<Rightarrow> Stop [] (Uncaught e)
      | Inr (grp, primary) \<Rightarrow>
          if length rest < count - 1 then Stop [] (Return 17)
          else if length grp = count then Next grp (count - 1)
          else
            (case rewrite_group grp primary of
               (out, w, Some a) \<Rightarrow> Stop out a
             | (out, w, None) \<Rightarrow> Next out (count - 1)))"

text \<open>A header line \<^verbatim>\<open>@SQ\<close> is written only when its \<^verbatim>\<open>SN:\<close> name is a wanted transcript.\<close>

definition sel_header :: "string set \<Rightarrow> string \<Rightarrow> string list" where
  "sel_header ids line =
     (if starts_with (''@SQ'' @ [TAB]) line then
        (case find_sub (TAB # ''SN:'') line of
           None \<Rightarrow> []
         | Some p \<Rightarrow>
             (let from = p + 4 in
              if (case find_char TAB line from of
                    None \<Rightarrow> substr_from line from
                  | Some to \<Rightarrow> substr line from (to - from)) \<in> ids
              then [line] else []))
      else [line])"

definition sel_step :: "string set \<Rightarrow> string \<Rightarrow> string list \<Rightarrow> step" where
  "sel_step ids line rest =
     (if line = [] then Next [] 0
      else if hd line = CHR ''@'' then Next (sel_header ids line) 0
      else case read_count line of
          None \<Rightarrow> Next [] 0
        | Some (Inl e) \<Rightarrow> Stop [] (Uncaught e)
        | Some (Inr count) \<Rightarrow>
            if count = 1 then
              Next (if extract_transcript_id line \<in> ids then [line] else []) 0
            else sel_group ids line rest count)"

definition sel_main :: "string list \<Rightarrow> (string \<Rightarrow> string list)
    \<Rightarrow> bool \<times> (string \<times> string list) list \<times> abort" where
  "sel_main argv fs =
     (let argc = length argv in
      if argc < 4 \<or> argc mod 2 \<noteq> 0 then (True, [], Return 0)
      else case run_pairs (sel_step (set (fs (argv ! 1)))) fs (drop 2 argv) of
             (files, a) \<Rightarrow> (False, files, a))"

section \<open>filter\_ambiguous\_genes\<close>

text \<open>
  The table from transcript to gene is a \<open>std::map\<close>, read from the annotation file: a line
  that is not empty, is no comment and holds \<^verbatim>\<open> transcript_id "\<close> gives an entry; an
  unfinished tag or a missing \<^verbatim>\<open>gene_id\<close> ends the run with status 2.
\<close>

definition annotation_entry :: "string \<Rightarrow> abort + (string \<times> string) option" where
  "annotation_entry line =
     (if line \<noteq> [] \<and> hd line \<noteq> CHR ''#'' then
        (case find_sub ('' transcript_id '' @ [CHR 0x22]) line of
           None \<Rightarrow> Inr None
         | Some p \<Rightarrow>
             (let transcript_from = p + 16 in
              case find_sub_from [CHR 0x22, CHR '';''] line transcript_from of
                None \<Rightarrow> Inl (Return 2)
              | Some transcript_to \<Rightarrow>
                  (case find_sub (TAB # ''gene_id '' @ [CHR 0x22]) line of
                     None \<Rightarrow> Inl (Return 2)
                   | Some q \<Rightarrow>
                       (let gene_from = q + 10 in
                        case find_sub_from [CHR 0x22, CHR '';''] line gene_from of
                          None \<Rightarrow> Inl (Return 2)
                        | Some gene_to \<Rightarrow>
                            Inr (Some (substr line transcript_from (transcript_to - transcript_from),
                                       substr line gene_from (gene_to - gene_from)))))))
      else Inr None)"

fun load_annotations :: "string list \<Rightarrow> (string \<rightharpoonup> string) \<Rightarrow> abort + (string \<rightharpoonup> string)" where
  "load_annotations [] table = Inr table"
| "load_annotations (line # ls) table =
     (case annotation_entry line of
        Inl a \<Rightarrow> Inl a
      | Inr None \<Rightarrow> load_annotations ls table
      | Inr (Some (t, g)) \<Rightarrow> load_annotations ls (table(t \<mapsto> g)))"

text \<open>The lines after the first of a group: a line of another gene empties the group, a
  transcript without a gene ends the run with status 7.\<close>

fun fag_collect :: "(string \<rightharpoonup> string) \<Rightarrow> string \<Rightarrow> string list \<Rightarrow> string list
    \<Rightarrow> abort + string list" where
  "fag_collect table gene [] grp = Inr grp"
| "fag_collect table gene (line # ls) grp =
     (case table (extract_transcript_id line) of
        None \<Rightarrow> Inl (Return 7)
      | Some g \<Rightarrow> fag_collect table gene ls (if gene = g then grp @ [line] else []))"

definition fag_group :: "(string \<rightharpoonup> string) \<Rightarrow> string \<Rightarrow> string list \<Rightarrow> nat \<Rightarrow> step" where
  "fag_group table line rest count =
     (case table (extract_transcript_id line) of
        None \<Rightarrow> Stop [] (Return 6)
      | Some gene \<Rightarrow>
          (case fag_collect table gene (take (count - 1) rest) [line] of
             Inl a \<Rightarrow> Stop [] a
           | Inr grp \<Rightarrow>
               if length rest < count - 1 then Stop [] (Return 17)
               else Next (if length grp = count then grp else []) (count - 1)))"

definition fag_step :: "(string \<rightharpoonup> string) \<Rightarrow> string \<Rightarrow> string list \<Rightarrow> step" where
  "fag_step table line rest =
     (if line = [] then Next [] 0
      else if hd line = CHR ''@'' then Next [line] 0
      else case read_count line of
          None \<Rightarrow> Next [] 0
        | Some (Inl e) \<Rightarrow> Stop [] (Uncaught e)
        | Some (Inr count) \<Rightarrow>
            if count = 1 then Next [line] 0 else fag_group table line rest count)"

definition fag_main :: "string list \<Rightarrow> (string \<Rightarrow> string list)
    \<Rightarrow> bool \<times> (string \<times> string list) list \<times> abort" where
  "fag_main argv fs =
     (let argc = length argv in
      if argc = 1 \<or> argc mod 2 \<noteq> 0 then (True, [], Return 0)
      else case load_annotations (fs (argv ! 1)) Map.empty of
             Inl a \<Rightarrow> (False, [], a)
           | Inr table \<Rightarrow>
               (case run_pairs (fag_step table) fs (drop 2 argv) of
                  (files, a) \<Rightarrow> (False, files, a)))"


section \<open>Sample data\<close>

text \<open>An alignment line with thirteen columns, and a file system without files.\<close>

definition sam_line :: "string \<Rightarrow> string \<Rightarrow> string \<Rightarrow> string \<Rightarrow> string \<Rightarrow> string" where
  "sam_line flag rname cigar nh hi =
     join_tab [''read1'', flag, rname, ''100'', ''0'', cigar, ''*'', ''0'', ''0'', ''ACGTA'',
               ''IIIII'', ''NH:i:'' @ nh, ''HI:i:'' @ hi]"

definition no_files :: "string \<Rightarrow> string list" where
  "no_files name = []"

text \<open>
  A group of three lines: the first is on the reverse strand and of a transcript that is not
  wanted, the other two are secondary alignments with different CIGARs. \<open>out_first\<close> and
  \<open>out_second\<close> are the two lines written for it.
\<close>

definition rec_reverse :: string where
  "rec_reverse = sam_line ''16'' ''T3'' ''5M'' ''3'' ''1''"

definition rec_second :: string where
  "rec_second = sam_line ''256'' ''T1'' ''5M'' ''3'' ''2''"

definition rec_third :: string where
  "rec_third = sam_line ''256'' ''T2'' ''4M'' ''3'' ''3''"

definition out_first :: string where
  "out_first = join_tab [''read1'', ''0'', ''T1'', ''100'', ''3'', ''5M'', ''*'', ''0'', ''0'',
     ''ACGTA'', ''IIIII'', ''NH:i:2'', ''HI:i:1'']"

definition out_second :: string where
  "out_second = join_tab [''read1'', ''256'', ''T2'', ''100'', ''3'', ''4M'', ''*'', ''0'', ''0'',
     ''ACGTA'', ''IIIII'', ''NH:i:2'', ''HI:i:2'']"

text \<open>A group of three lines of which two have no secondary bit and the third is on the
  reverse strand, and the lines written for it by \<^verbatim>\<open>filter_reverse_reads\<close>.\<close>

definition two_primary_first :: string where
  "two_primary_first = sam_line ''0'' ''T1'' ''5M'' ''3'' ''1''"

definition two_primary_second :: string where
  "two_primary_second = sam_line ''0'' ''T2'' ''5M'' ''3'' ''2''"

definition two_primary_reverse :: string where
  "two_primary_reverse = sam_line ''16'' ''T3'' ''5M'' ''3'' ''3''"

definition two_primary_out :: "string list" where
  "two_primary_out =
     [join_tab [''read1'', ''0'', ''T1'', ''100'', ''3'', ''5M'', ''*'', ''0'', ''0'',
        ''ACGTA'', ''IIIII'', ''NH:i:2'', ''HI:i:1''],
      join_tab [''read1'', ''0'', ''T2'', ''100'', ''3'', ''5M'', ''*'', ''0'', ''0'',
        ''ACGTA'', ''IIIII'', ''NH:i:2'', ''HI:i:2'']]"








text \<open>Two lines of a wanted transcript whose FLAG column is no number.\<close>

definition unreadable_first :: string where
  "unreadable_first = sam_line ''x'' ''T1'' ''5M'' ''2'' ''1''"

definition unreadable_second :: string where
  "unreadable_second = sam_line ''x'' ''T1'' ''5M'' ''2'' ''2''"

section \<open>Observations on groups\<close>

text \<open>
  The lines of a group that a tool keeps, in the order of the input: the lines with a clear
  reverse flag, and the lines of a wanted transcript.
\<close>

definition frr_survivors :: "string \<Rightarrow> string list \<Rightarrow> nat \<Rightarrow> string list" where
  "frr_survivors line rest count =
     filter (\<lambda>l. forward_flag l = Inr True) (line # take (count - 1) rest)"

definition sel_survivors :: "string set \<Rightarrow> string \<Rightarrow> string list \<Rightarrow> nat \<Rightarrow> string list" where
  "sel_survivors ids line rest count =
     filter (\<lambda>l. extract_transcript_id l \<in> ids) (line # take (count - 1) rest)"

text \<open>
  The FLAG of a line is its second column. \<open>secondary_bit_clear\<close> says that the FLAG is a
  number without the bit 256, which marks the primary alignment; \<open>flag_readable\<close> says that
  \<open>check_flag\<close> finds the column and reads a number from it.
\<close>

definition flag_column :: "string \<Rightarrow> string option" where
  "flag_column line = (case split_tab line of a # f # r \<Rightarrow> Some f | _ \<Rightarrow> None)"

definition secondary_bit_clear :: "string \<Rightarrow> bool" where
  "secondary_bit_clear line =
     (case flag_column line of
        None \<Rightarrow> False
      | Some f \<Rightarrow> (case stoull f of Inl e \<Rightarrow> False | Inr v \<Rightarrow> v AND 256 = 0))"

definition flag_readable :: "string \<Rightarrow> bool" where
  "flag_readable line = (check_flag line 0 = Inr True)"

text \<open>
  What is said of the lines \<open>out\<close> written for the kept lines \<open>survivors\<close> of a group:
  \<^item> \<open>renumbered\<close>: one line is written for each kept line, in the same order; every column
    of a written line that starts with \<^verbatim>\<open>NH:i:\<close> holds the number of kept lines and every
    column that starts with \<^verbatim>\<open>HI:i:\<close> holds the rank of the line, from 1; a column of a kept
    line other than the second and the fifth that is not empty is found at the same place
    in the written line, with the new value if it is one of these two tags and unchanged
    otherwise;
  \<^item> \<open>mapq_rewritten\<close>: the fifth column of every written line, when the kept line has one,
    is \<open>mapq_value\<close> of the number of kept lines;
  \<^item> \<open>primary_settled\<close>: when a kept line was primary, every FLAG is written as it was read;
    when none was, the FLAG of the first written line is the FLAG read with the bit 256
    flipped, the other FLAGs are written as read and the number of
    \<^verbatim>\<open>Not implemented yet\<close> messages is that of the CIGARs that differ from the first;
    when at most one kept line had the bit 256 clear, exactly one written line has it clear.
\<close>

definition renumbered :: "string list \<Rightarrow> string list \<Rightarrow> bool" where
  "renumbered survivors out \<longleftrightarrow>
     length out = length survivors
     \<and> (\<forall>i<length survivors.
          (\<forall>f\<in>set (split_tab (out ! i)).
             (starts_with ''NH:i:'' f \<longrightarrow> f = ''NH:i:'' @ to_string (length survivors))
             \<and> (starts_with ''HI:i:'' f \<longrightarrow> f = ''HI:i:'' @ to_string (i + 1)))
          \<and> (\<forall>j<length (split_tab (survivors ! i)).
                j \<noteq> 1 \<and> j \<noteq> 4 \<and> split_tab (survivors ! i) ! j \<noteq> [] \<longrightarrow>
                j < length (split_tab (out ! i))
                \<and> split_tab (out ! i) ! j =
                    (if starts_with ''NH:i:'' (split_tab (survivors ! i) ! j)
                     then ''NH:i:'' @ to_string (length survivors)
                     else if starts_with ''HI:i:'' (split_tab (survivors ! i) ! j)
                     then ''HI:i:'' @ to_string (i + 1)
                     else split_tab (survivors ! i) ! j)))"

definition mapq_rewritten :: "string list \<Rightarrow> string list \<Rightarrow> bool" where
  "mapq_rewritten survivors out \<longleftrightarrow>
     length out = length survivors
     \<and> (\<forall>i<length survivors.
          4 < length (split_tab (survivors ! i)) \<longrightarrow>
          4 < length (split_tab (out ! i))
          \<and> split_tab (out ! i) ! 4 = to_string (mapq_value (length survivors)))"

definition primary_settled :: "string list \<Rightarrow> string list \<Rightarrow> bool" where
  "primary_settled survivors out \<longleftrightarrow>
     length out = length survivors
     \<and> ((\<exists>s\<in>set survivors. primary_flag s = Inr True) \<longrightarrow>
          (\<forall>i<length survivors. flag_column (out ! i) = flag_column (survivors ! i)))
     \<and> (survivors \<noteq> [] \<and> \<not> (\<exists>s\<in>set survivors. primary_flag s = Inr True) \<longrightarrow>
          (\<exists>fl v. flag_column (survivors ! 0) = Some fl \<and> stoull fl = Inr v
             \<and> flag_column (out ! 0) = Some (to_string (v XOR 256)))
          \<and> (\<forall>i<length survivors. 0 < i \<longrightarrow> flag_column (out ! i) = flag_column (survivors ! i))
          \<and> (\<exists>cigars. cigars_of survivors = Inr cigars
                \<and> rewrite_group survivors None = (out, not_implemented cigars, None)))
     \<and> (survivors \<noteq> [] \<and> length (filter secondary_bit_clear survivors) \<le> 1 \<longrightarrow>
          length (filter secondary_bit_clear out) = 1)"

section \<open>The mapping quality as a table\<close>

text \<open>
  \<open>\<lfloor>10 * log\<^sub>1\<^sub>0 r\<rfloor> = n\<close> follows from \<open>10\<^sup>n \<le> r\<^sup>1\<^sup>0 < 10\<^sup>n\<^sup>+\<^sup>1\<close>, which is a comparison of
  rational numbers.
\<close>

lemma log_ten_power: "log 10 ((10::real) ^ m) = real m"
  by (simp add: log_nat_power)

lemma floor_ten_log:
  fixes r :: real
  assumes r: "0 < r" and lo: "10 ^ n \<le> r ^ 10" and hi: "r ^ 10 < 10 ^ (n + 1)"
  shows "\<lfloor>10 * log 10 r\<rfloor> = int n"
proof -
  have p: "0 < r ^ 10" using r by simp
  have e: "log 10 (r ^ 10) = 10 * log 10 r"
    using r by (simp add: log_nat_power)
  have "log 10 (10 ^ n) \<le> log 10 (r ^ 10)"
    using lo p by (subst log_le_cancel_iff) simp_all
  then have a: "real n \<le> 10 * log 10 r"
    by (simp only: e log_ten_power)
  have "log 10 (r ^ 10) < log 10 (10 ^ (n + 1))"
    using hi p by (subst log_less_cancel_iff) simp_all
  then have "10 * log 10 r < real (n + 1)"
    by (simp only: e log_ten_power)
  then have b: "10 * log 10 r < real n + 1" by simp
  show ?thesis
    using a b by (intro floor_unique) simp_all
qed

lemma neg_log_ratio:
  assumes "2 \<le> k"
  shows "- 10 * log 10 (1 - 1 / real k) = 10 * log 10 (real k / (real k - 1))"
proof -
  have k: "1 < real k" using assms by simp
  have "1 - 1 / real k = (real k - 1) / real k"
    using k by (simp add: field_simps)
  also have "log 10 \<dots> = log 10 (real k - 1) - log 10 (real k)"
    using k by (simp add: log_divide)
  finally have "- 10 * log 10 (1 - 1 / real k) = 10 * (log 10 (real k) - log 10 (real k - 1))"
    by simp
  also have "\<dots> = 10 * log 10 (real k / (real k - 1))"
    using k by (simp add: log_divide)
  finally show ?thesis .
qed

lemma mapq_value_ratio:
  assumes "2 \<le> k"
  shows "mapq_value k = nat \<lfloor>10 * log 10 (real k / (real k - 1))\<rfloor>"
proof -
  have "\<not> k \<le> 1" using assms by simp
  then have "mapq_value k = nat \<lfloor>- 10 * log 10 (1 - 1 / real k)\<rfloor>"
    unfolding mapq_value_def by (simp only: if_False)
  then show ?thesis
    by (simp only: neg_log_ratio [OF assms])
qed

lemma mapq_value_2: "mapq_value 2 = 3"
proof -
  have "\<lfloor>10 * log 10 (real 2 / (real 2 - 1))\<rfloor> = int 3"
    by (rule floor_ten_log) simp_all
  then show ?thesis
    by (simp only: mapq_value_ratio [of 2] order_refl)
qed

lemma mapq_value_3: "mapq_value 3 = 1"
proof -
  have "\<lfloor>10 * log 10 (real 3 / (real 3 - 1))\<rfloor> = int 1"
    by (rule floor_ten_log) (simp_all add: power_divide)
  moreover have "(2::nat) \<le> 3" by simp
  ultimately show ?thesis
    by (simp only: mapq_value_ratio [of 3])
qed

lemma mapq_value_4: "mapq_value 4 = 1"
proof -
  have "\<lfloor>10 * log 10 (real 4 / (real 4 - 1))\<rfloor> = int 1"
    by (rule floor_ten_log) (simp_all add: power_divide)
  moreover have "(2::nat) \<le> 4" by simp
  ultimately show ?thesis
    by (simp only: mapq_value_ratio [of 4])
qed

lemma mapq_value_ge_5:
  assumes "5 \<le> k"
  shows "mapq_value k = 0"
proof -
  define r where "r = real k / (real k - 1)"
  have k: "5 \<le> real k" using assms by simp
  have r1: "1 \<le> r" using k by (simp add: r_def field_simps)
  have r2: "r \<le> 5 / 4" using k by (simp add: r_def field_simps)
  have "r ^ 10 \<le> (5 / 4) ^ 10"
    using r1 r2 by (intro power_mono) simp_all
  also have "\<dots> < (10::real)" by (simp add: power_divide)
  finally have hi: "r ^ 10 < 10 ^ (0 + 1)" by simp
  have lo: "10 ^ 0 \<le> r ^ 10" using r1 by simp
  have "\<lfloor>10 * log 10 r\<rfloor> = int 0"
    using r1 lo hi by (intro floor_ten_log) simp_all
  moreover have "2 \<le> k" using assms by simp
  ultimately show ?thesis
    by (simp add: mapq_value_ratio r_def)
qed

lemma mapq_value_le_1: "k \<le> 1 \<Longrightarrow> mapq_value k = 255"
  by (simp add: mapq_value_def)

lemma mapq_value_table:
  "mapq_value k = (if k \<le> 1 then 255 else if k = 2 then 3 else if k \<le> 4 then 1 else 0)"
proof -
  consider "k \<le> 1" | "k = 2" | "k = 3" | "k = 4" | "5 \<le> k" by linarith
  then show ?thesis
    by cases (simp_all add: mapq_value_le_1 mapq_value_2 mapq_value_3 mapq_value_4 mapq_value_ge_5)
qed

section \<open>Evaluation on concrete inputs\<close>

lemma skip_tabs_5:
  "skip_tabs 5 s i = skip_tabs (Suc (Suc (Suc (Suc (Suc 0))))) s i"
  by (simp add: eval_nat_numeral)

lemmas eval_simps =
  find_char_def find_sub_from_def substr_def substr_from_def
  is_space_def is_digit_def digit_val_def strip_sign_def stoull_def digit_char_def
  to_string.simps split_tab.simps(2) Let_def
  check_flag_def forward_flag_def primary_flag_def extract_transcript_id_def read_count_def
  mapq_value_table skip_tabs_5 cigar_of_def not_implemented_def
  rewrite_part_def rewrite_line_def rewrite_group_def
  frr_group_def frr_step_def frr_main_def
  sel_group_def sel_header_def sel_step_def sel_main_def
  annotation_entry_def fag_group_def fag_step_def fag_main_def
  sam_line_def no_files_def

section \<open>The main loop\<close>

lemma run_Stop: "f line rest = Stop out a \<Longrightarrow> run f (line # rest) = (filed out a, Some a)"
  by simp




section \<open>Command line\<close>

text \<open>
  C9, as the code has it: each tool prints the usage text and returns 0 both when it is
  called without arguments and when the number of arguments has the wrong parity (for
  \<^verbatim>\<open>select_transcripts\<close>: when there are fewer than three arguments, too). No status other
  than 0 is returned for a malformed command line.
\<close>

theorem usage_and_status_on_argument_count:
  "(length argv = 1 \<or> length argv mod 2 \<noteq> 1 \<longrightarrow> frr_main argv fs = (True, [], Return 0))
   \<and> (length argv = 1 \<or> length argv mod 2 \<noteq> 0 \<longrightarrow> fag_main argv fs = (True, [], Return 0))
   \<and> (length argv < 4 \<or> length argv mod 2 \<noteq> 0 \<longrightarrow> sel_main argv fs = (True, [], Return 0))"
  by (simp add: frr_main_def fag_main_def sel_main_def)

theorem usage_and_status_on_argument_count_witness:
  "length [''tool''] = 1
   \<and> frr_main [''tool''] no_files = (True, [], Return 0)
   \<and> fag_main [''tool''] no_files = (True, [], Return 0)
   \<and> sel_main [''tool''] no_files = (True, [], Return 0)"
  using usage_and_status_on_argument_count [of "[''tool'']" no_files] by simp

text \<open>The claim C9 as stated fails: one file name is a malformed command line of
  \<^verbatim>\<open>filter_reverse_reads\<close>, and the status is 0.\<close>

theorem malformed_invocation_returns_0:
  "length [''filter_reverse_reads'', ''in.sam''] mod 2 \<noteq> 1
   \<and> frr_main [''filter_reverse_reads'', ''in.sam''] no_files = (True, [], Return 0)"
  by (simp add: frr_main_def)

section \<open>Transcripts without a gene\<close>

lemma fag_collect_unknown:
  "\<exists>l\<in>set ls. table (extract_transcript_id l) = None \<Longrightarrow>
   fag_collect table gene ls grp = Inl (Return 7)"
  by (induction ls arbitrary: grp) (auto split: option.split)

text \<open>
  C8, as the code has it: the table is asked only for the lines of a group whose first line
  declares a multiplicity other than 1. When a line of such a group (among those the input
  still holds) has a transcript that is not in the table, the run ends with status 6 if it is
  the first line of the group and with status 7 otherwise; no line of the group is written
  and no further line is processed. A line that declares the multiplicity 1 is written
  without a look at the table, whatever the table holds.
\<close>

theorem unknown_transcript_in_group_is_fatal:
  assumes "line \<noteq> []" and "hd line \<noteq> CHR ''@''"
    and "read_count line = Some (Inr count)"
  shows "(count \<noteq> 1
          \<and> (\<exists>l\<in>set (line # take (count - 1) rest). table (extract_transcript_id l) = None) \<longrightarrow>
          run (fag_step table) (line # rest)
            = ([], Some (Return (if table (extract_transcript_id line) = None then 6 else 7))))
    \<and> (count = 1 \<longrightarrow> fag_step table line rest = Next [line] 0)"
proof (intro conjI impI)
  assume a: "count \<noteq> 1
          \<and> (\<exists>l\<in>set (line # take (count - 1) rest). table (extract_transcript_id l) = None)"
  show "run (fag_step table) (line # rest)
    = ([], Some (Return (if table (extract_transcript_id line) = None then 6 else 7)))"
  proof (cases "table (extract_transcript_id line)")
    case None
    then have "fag_step table line rest = Stop [] (Return 6)"
      using assms a by (simp add: fag_step_def fag_group_def)
    then show ?thesis using None by (simp add: run_Stop)
  next
    case (Some gene)
    then have "\<exists>l\<in>set (take (count - 1) rest). table (extract_transcript_id l) = None"
      using a by auto
    then have "fag_collect table gene (take (count - 1) rest) [line] = Inl (Return 7)"
      by (rule fag_collect_unknown)
    then have "fag_step table line rest = Stop [] (Return 7)"
      using assms a Some by (simp add: fag_step_def fag_group_def)
    then show ?thesis using Some by (simp add: run_Stop)
  qed
next
  assume "count = 1"
  then show "fag_step table line rest = Next [line] 0"
    using assms by (simp add: fag_step_def)
qed

theorem unknown_transcript_in_group_is_fatal_witness:
  "sam_line ''0'' ''T1'' ''5M'' ''2'' ''1'' \<noteq> []
   \<and> hd (sam_line ''0'' ''T1'' ''5M'' ''2'' ''1'') \<noteq> CHR ''@''
   \<and> read_count (sam_line ''0'' ''T1'' ''5M'' ''2'' ''1'') = Some (Inr 2)
   \<and> [''T1'' \<mapsto> ''G1''] (extract_transcript_id (sam_line ''256'' ''T3'' ''5M'' ''2'' ''2'')) = None
   \<and> run (fag_step [''T1'' \<mapsto> ''G1''])
        [sam_line ''0'' ''T1'' ''5M'' ''2'' ''1'', sam_line ''256'' ''T3'' ''5M'' ''2'' ''2'',
         sam_line ''0'' ''T1'' ''5M'' ''1'' ''1'']
      = ([], Some (Return 7))
   \<and> read_count (sam_line ''0'' ''T9'' ''5M'' ''1'' ''1'') = Some (Inr 1)
   \<and> [''T1'' \<mapsto> ''G1''] (extract_transcript_id (sam_line ''0'' ''T9'' ''5M'' ''1'' ''1'')) = None
   \<and> fag_step [''T1'' \<mapsto> ''G1''] (sam_line ''0'' ''T9'' ''5M'' ''1'' ''1'') []
      = Next [sam_line ''0'' ''T9'' ''5M'' ''1'' ''1''] 0"
proof -
  let ?a = "sam_line ''0'' ''T1'' ''5M'' ''2'' ''1''"
  let ?b = "sam_line ''256'' ''T3'' ''5M'' ''2'' ''2''"
  let ?c = "sam_line ''0'' ''T1'' ''5M'' ''1'' ''1''"
  let ?s = "sam_line ''0'' ''T9'' ''5M'' ''1'' ''1''"
  let ?table = "[''T1'' \<mapsto> ''G1'']"
  have a: "read_count ?a = Some (Inr 2)"
    by (simp add: eval_simps)
  have b: "?table (extract_transcript_id ?b) = None"
    by (simp add: eval_simps)
  have c: "?table (extract_transcript_id ?a) \<noteq> None"
    by (simp add: eval_simps)
  have d: "?a \<noteq> []" "hd ?a \<noteq> CHR ''@''"
    by (simp_all add: sam_line_def)
  have e: "?s \<noteq> []" "hd ?s \<noteq> CHR ''@''"
    by (simp_all add: sam_line_def)
  have f: "read_count ?s = Some (Inr 1)"
    by (simp add: eval_simps)
  have g: "?table (extract_transcript_id ?s) = None"
    by (simp add: eval_simps)
  have ex: "\<exists>l\<in>set (?a # take (2 - 1) [?b, ?c]). ?table (extract_transcript_id l) = None"
    using b by simp
  have ne: "(2::nat) \<noteq> 1" by simp
  from unknown_transcript_in_group_is_fatal [OF d a, of "[?b, ?c]" ?table] ne ex
  have "run (fag_step ?table) [?a, ?b, ?c]
      = ([], Some (Return (if ?table (extract_transcript_id ?a) = None then 6 else 7)))"
    by blast
  then have r1: "run (fag_step ?table) [?a, ?b, ?c] = ([], Some (Return 7))"
    unfolding if_not_P [OF c] .
  from unknown_transcript_in_group_is_fatal [OF e f, of "[]" ?table]
  have r2: "fag_step ?table ?s [] = Next [?s] 0"
    by blast
  show ?thesis
    using d a b r1 f g r2 by (intro conjI)
qed

text \<open>The claim C8 as stated fails: a line that declares the multiplicity 1 is written
  without a look at the table, and the run goes on.\<close>

theorem unknown_transcript_of_single_record_is_written:
  "Map.empty (extract_transcript_id (sam_line ''0'' ''T1'' ''5M'' ''1'' ''1'')) = None
   \<and> run (fag_step Map.empty) [sam_line ''0'' ''T1'' ''5M'' ''1'' ''1'']
      = ([sam_line ''0'' ''T1'' ''5M'' ''1'' ''1''], None)"
  by (simp add: eval_simps)

section \<open>Lines without a tab\<close>






section \<open>Gathering a group\<close>

lemma check_flag_defined:
  "check_flag line f = Inr b \<Longrightarrow> \<exists>b'. check_flag line f' = Inr b'"
  by (auto simp add: check_flag_def Let_def split: option.splits sum.splits)

lemma forward_primary_defined:
  "forward_flag line = Inr b \<Longrightarrow> \<exists>b'. primary_flag line = Inr b'"
  unfolding forward_flag_def primary_flag_def by (rule check_flag_defined)

lemma frr_collect_all_forward:
  "\<forall>l\<in>set ls. forward_flag l = Inr True \<Longrightarrow>
   \<exists>p'. frr_collect ls (g, p, m) = Inr (g @ ls, p', m)"
proof (induction ls arbitrary: g p)
  case Nil
  then show ?case by simp
next
  case (Cons l ls)
  from Cons.prems have f: "forward_flag l = Inr True" by simp
  then obtain b where b: "primary_flag l = Inr b"
    using forward_primary_defined by blast
  from Cons.prems have "\<forall>l\<in>set ls. forward_flag l = Inr True" by simp
  from Cons.IH [OF this, of "g @ [l]" "if b then Some (length g) else p"]
  show ?case using f b by simp
qed


lemma frr_collect_result:
  assumes "frr_collect ls (g, p, m) = Inr (g', p', m')"
  shows "g' = g @ filter (\<lambda>l. forward_flag l = Inr True) ls
    \<and> m' = (m \<or> (\<exists>l\<in>set ls. forward_flag l = Inr False))
    \<and> ((p' = None) = (p = None \<and> (\<forall>l\<in>set ls. forward_flag l = Inr True \<longrightarrow> primary_flag l = Inr False)))
    \<and> (\<forall>l\<in>set ls. forward_flag l = Inr True \<longrightarrow> (\<exists>b. primary_flag l = Inr b))
    \<and> (\<forall>l\<in>set ls. \<exists>b. forward_flag l = Inr b)"
  using assms
proof (induction ls arbitrary: g p m)
  case Nil
  then show ?case by simp
next
  case (Cons l ls)
  show ?case
  proof (cases "forward_flag l")
    case (Inl e)
    then show ?thesis using Cons.prems by simp
  next
    case (Inr b)
    show ?thesis
    proof (cases b)
      case False
      then have "frr_collect ls (g, p, True) = Inr (g', p', m')"
        using Cons.prems Inr by simp
      from Cons.IH [OF this] show ?thesis using Inr False by auto
    next
      case True
      then obtain q where q: "primary_flag l = Inr q"
        using Inr forward_primary_defined by blast
      then have "frr_collect ls (g @ [l], if q then Some (length g) else p, m) = Inr (g', p', m')"
        using Cons.prems Inr True by simp
      from Cons.IH [OF this] show ?thesis using Inr True q by auto
    qed
  qed
qed

lemma sel_collect_all_kept:
  "\<forall>l\<in>set ls. extract_transcript_id l \<in> ids \<and> (\<exists>b. primary_flag l = Inr b) \<Longrightarrow>
   \<exists>p'. sel_collect ids ls (g, p) = Inr (g @ ls, p')"
proof (induction ls arbitrary: g p)
  case Nil
  then show ?case by simp
next
  case (Cons l ls)
  from Cons.prems obtain b where b: "primary_flag l = Inr b" and k: "extract_transcript_id l \<in> ids"
    by auto
  from Cons.prems have "\<forall>l\<in>set ls. extract_transcript_id l \<in> ids \<and> (\<exists>b. primary_flag l = Inr b)"
    by simp
  from Cons.IH [OF this, of "g @ [l]" "if b then Some (length g) else p"]
  show ?case using b k by simp
qed

lemma fag_collect_cases:
  "fag_collect table gene ls grp = Inl (Return 7)
   \<or> (\<exists>grp'. fag_collect table gene ls grp = Inr grp'
        \<and> (if \<forall>l\<in>set ls. table (extract_transcript_id l) = Some gene
            then grp' = grp @ ls else length grp' < length ls))"
proof (induction ls arbitrary: grp)
  case Nil
  then show ?case by simp
next
  case (Cons l ls)
  show ?case
  proof (cases "table (extract_transcript_id l)")
    case None
    then show ?thesis by simp
  next
    case (Some g)
    show ?thesis
      using Cons.IH [of "if gene = g then grp @ [l] else []"] Some
      by (auto split: if_splits)
  qed
qed

lemma fag_collect_known:
  assumes "\<forall>l\<in>set ls. table (extract_transcript_id l) \<noteq> None"
  shows "fag_collect table gene ls grp \<noteq> Inl a"
  using assms by (induction ls arbitrary: grp) (auto split: option.split)


lemma frr_collect_defined:
  "\<forall>l\<in>set ls. \<exists>b. forward_flag l = Inr b \<Longrightarrow> \<exists>r. frr_collect ls st = Inr r"
proof (induction ls arbitrary: st)
  case Nil
  show ?case by (metis frr_collect.simps(1))
next
  case (Cons l ls)
  obtain g p m where st: "st = (g, p, m)" using prod_cases3 by blast
  from Cons.prems obtain b where b: "forward_flag l = Inr b" by auto
  then obtain q where q: "primary_flag l = Inr q"
    using forward_primary_defined by blast
  from Cons.prems have r: "\<forall>l\<in>set ls. \<exists>b. forward_flag l = Inr b" by simp
  show ?case
    using Cons.IH [OF r] b q by (cases b) (simp_all add: st)
qed

section \<open>Truncated groups\<close>

text \<open>
  C5: when an alignment line declares a multiplicity \<open>count > 1\<close> and the input holds fewer
  than \<open>count - 1\<close> further lines, the run of each of the three tools ends there: no line of
  the unfinished group is written and the run does not end with status 0. The status is 17
  unless the run ended before the end of the input was seen (an uncaught exception of
  \<open>stoull\<close> in \<^verbatim>\<open>filter_reverse_reads\<close> and \<^verbatim>\<open>select_transcripts\<close>, status 6 or 7 for a
  transcript without a gene in \<^verbatim>\<open>filter_ambiguous_genes\<close>); it is 17 when every FLAG is
  readable, and when every transcript has a gene.
\<close>

theorem truncated_group_is_fatal:
  assumes "line \<noteq> []" and "hd line \<noteq> CHR ''@''"
    and "read_count line = Some (Inr count)" and "1 < count"
    and "length rest < count - 1"
  shows "(\<exists>a. (a = Return 17 \<or> (\<exists>e. a = Uncaught e)) \<and> run frr_step (line # rest) = ([], Some a))
    \<and> (\<exists>a. (a = Return 17 \<or> (\<exists>e. a = Uncaught e)) \<and> run (sel_step ids) (line # rest) = ([], Some a))
    \<and> (\<exists>a. (a = Return 17 \<or> a = Return 6 \<or> a = Return 7)
          \<and> run (fag_step table) (line # rest) = ([], Some a))
    \<and> ((\<forall>l\<in>set (line # rest). \<exists>b. forward_flag l = Inr b) \<longrightarrow>
          run frr_step (line # rest) = ([], Some (Return 17)))
    \<and> ((\<forall>l\<in>set (line # rest). table (extract_transcript_id l) \<noteq> None) \<longrightarrow>
          run (fag_step table) (line # rest) = ([], Some (Return 17)))"
proof -
  have n: "count \<noteq> 1" using assms(4) by simp
  have t: "take (count - 1) rest = rest" using assms(5) by simp
  have a: "\<exists>a. (a = Return 17 \<or> (\<exists>e. a = Uncaught e)) \<and> frr_step line rest = Stop [] a"
    using assms n by (auto simp add: frr_step_def frr_group_def split: sum.split)
  have b: "\<exists>a. (a = Return 17 \<or> (\<exists>e. a = Uncaught e)) \<and> sel_step ids line rest = Stop [] a"
    using assms n by (auto simp add: sel_step_def sel_group_def split: sum.split)
  have c: "\<exists>a. (a = Return 17 \<or> a = Return 6 \<or> a = Return 7) \<and> fag_step table line rest = Stop [] a"
  proof (cases "table (extract_transcript_id line)")
    case None
    then show ?thesis using assms n by (simp add: fag_step_def fag_group_def)
  next
    case (Some gene)
    show ?thesis
      using fag_collect_cases [of table gene "take (count - 1) rest" "[line]"] assms n Some
      by (auto simp add: fag_step_def fag_group_def)
  qed
  have d: "frr_step line rest = Stop [] (Return 17)"
    if "\<forall>l\<in>set (line # rest). \<exists>b. forward_flag l = Inr b"
  proof -
    have "frr_collect (line # rest) ([], None, False) \<noteq> Inl e" for e
      using frr_collect_defined [OF that, of "([], None, False)"] by auto
    then show ?thesis
      using assms n t by (auto simp add: frr_step_def frr_group_def simp del: frr_collect.simps split: sum.split)
  qed
  have e: "fag_step table line rest = Stop [] (Return 17)"
    if k: "\<forall>l\<in>set (line # rest). table (extract_transcript_id l) \<noteq> None"
  proof -
    from k obtain gene where g: "table (extract_transcript_id line) = Some gene" by auto
    have "fag_collect table gene rest [line] \<noteq> Inl a" for a
      using k by (intro fag_collect_known) simp
    then show ?thesis
      using assms n t g by (auto simp add: fag_step_def fag_group_def split: sum.split)
  qed
  show ?thesis
    using a b c d e by (auto simp add: run_Stop)
qed

theorem truncated_group_is_fatal_witness:
  "read_count (sam_line ''0'' ''T1'' ''5M'' ''3'' ''1'') = Some (Inr 3)
   \<and> length [sam_line ''256'' ''T1'' ''5M'' ''3'' ''2''] < 3 - 1
   \<and> run frr_step [sam_line ''0'' ''T1'' ''5M'' ''3'' ''1'', sam_line ''256'' ''T1'' ''5M'' ''3'' ''2'']
       = ([], Some (Return 17))
   \<and> run (fag_step [''T1'' \<mapsto> ''G1''])
         [sam_line ''0'' ''T1'' ''5M'' ''3'' ''1'', sam_line ''256'' ''T1'' ''5M'' ''3'' ''2'']
       = ([], Some (Return 17))
   \<and> (\<exists>a. a \<noteq> Return 0 \<and> run (sel_step {''T1''})
         [sam_line ''0'' ''T1'' ''5M'' ''3'' ''1'', sam_line ''256'' ''T1'' ''5M'' ''3'' ''2'']
       = ([], Some a))"
proof -
  let ?a = "sam_line ''0'' ''T1'' ''5M'' ''3'' ''1''"
  let ?b = "sam_line ''256'' ''T1'' ''5M'' ''3'' ''2''"
  have h1: "?a \<noteq> []" and h2: "hd ?a \<noteq> CHR ''@''"
    by (simp_all add: sam_line_def)
  have h3: "read_count ?a = Some (Inr 3)"
    by (simp add: eval_simps)
  have h4: "(1::nat) < 3" by simp
  have h5: "length [?b] < 3 - 1" by simp
  note t = truncated_group_is_fatal [OF h1 h2 h3 h4 h5, of "{''T1''}" "[''T1'' \<mapsto> ''G1'']"]
  have "forward_flag ?a = Inr True" and "forward_flag ?b = Inr True"
    by (simp_all add: eval_simps)
  then have f: "\<forall>l\<in>set [?a, ?b]. \<exists>b. forward_flag l = Inr b"
    by auto
  have "extract_transcript_id ?a = ''T1''" and "extract_transcript_id ?b = ''T1''"
    by (simp_all add: eval_simps)
  then have k: "\<forall>l\<in>set [?a, ?b]. [''T1'' \<mapsto> ''G1''] (extract_transcript_id l) \<noteq> None"
    by simp
  from t f have r1: "run frr_step [?a, ?b] = ([], Some (Return 17))" by blast
  from t k have r2: "run (fag_step [''T1'' \<mapsto> ''G1'']) [?a, ?b] = ([], Some (Return 17))" by blast
  from t have "\<exists>a. (a = Return 17 \<or> (\<exists>e. a = Uncaught e)) \<and> run (sel_step {''T1''}) [?a, ?b] = ([], Some a)"
    by blast
  then have r3: "\<exists>a. a \<noteq> Return 0 \<and> run (sel_step {''T1''}) [?a, ?b] = ([], Some a)"
    by auto
  show ?thesis using h3 h5 r1 r2 r3 by blast
qed

section \<open>Groups under the gene policy\<close>

text \<open>
  C4: in \<^verbatim>\<open>filter_ambiguous_genes\<close> a complete group of \<open>count > 1\<close> lines whose transcripts
  all have a gene is written whole and unchanged when every line has the gene of the first
  line, and nothing is written for it otherwise. Whatever the input, one turn of the main
  loop writes nothing or writes the lines it read, unchanged: no part of a group and no
  rewritten line.
\<close>

theorem gene_ambiguity_keeps_or_drops_whole_group:
  assumes "line \<noteq> []" and "hd line \<noteq> CHR ''@''"
    and "read_count line = Some (Inr count)" and "1 < count"
    and "count - 1 \<le> length rest"
    and "\<forall>l\<in>set (line # take (count - 1) rest). table (extract_transcript_id l) \<noteq> None"
  shows "fag_step table line rest =
      Next (if \<forall>l\<in>set (take (count - 1) rest).
                 table (extract_transcript_id l) = table (extract_transcript_id line)
            then line # take (count - 1) rest else []) (count - 1)
    \<and> (\<forall>input. \<exists>out n. (out = [] \<or> out = line # take n input)
          \<and> (fag_step table line input = Next out n
               \<or> (\<exists>a. fag_step table line input = Stop out a)))"
proof
  have n: "count \<noteq> 1" using assms(4) by simp
  from assms(6) obtain gene where g: "table (extract_transcript_id line) = Some gene" by auto
  have k: "\<forall>l\<in>set (take (count - 1) rest). table (extract_transcript_id l) \<noteq> None"
    using assms(6) by simp
  have len: "length (take (count - 1) rest) = count - 1" using assms(5) by simp
  from fag_collect_cases [of table gene "take (count - 1) rest" "[line]"]
    fag_collect_known [OF k, of gene "[line]" "Return 7"]
  obtain grp' where c: "fag_collect table gene (take (count - 1) rest) [line] = Inr grp'"
    and d: "if \<forall>l\<in>set (take (count - 1) rest). table (extract_transcript_id l) = Some gene
            then grp' = [line] @ take (count - 1) rest
            else length grp' < length (take (count - 1) rest)"
    by auto
  show "fag_step table line rest =
      Next (if \<forall>l\<in>set (take (count - 1) rest).
                 table (extract_transcript_id l) = table (extract_transcript_id line)
            then line # take (count - 1) rest else []) (count - 1)"
  proof (cases "\<forall>l\<in>set (take (count - 1) rest). table (extract_transcript_id l) = Some gene")
    case True
    then have "grp' = line # take (count - 1) rest" using d by simp
    then have "length grp' = count" using len assms(4) by simp
    then show ?thesis
      using assms(1-5) n g c True \<open>grp' = line # take (count - 1) rest\<close>
      by (simp add: fag_step_def fag_group_def)
  next
    case False
    with d have "length grp' < length (take (count - 1) rest)" by (simp only: if_False)
    then have "length grp' < count - 1" by (simp only: len)
    then have "length grp' \<noteq> count" by arith
    then show ?thesis
      using assms(1-5) n g c False by (simp add: fag_step_def fag_group_def)
  qed
next
  show "\<forall>input. \<exists>out n. (out = [] \<or> out = line # take n input)
          \<and> (fag_step table line input = Next out n
               \<or> (\<exists>a. fag_step table line input = Stop out a))"
  proof
    fix input
    have grp: "\<exists>out. (out = [] \<or> out = line # take (c - 1) input)
          \<and> (fag_group table line input c = Next out (c - 1)
               \<or> (\<exists>a. fag_group table line input c = Stop out a))" for c
    proof (cases "table (extract_transcript_id line)")
      case None
      then show ?thesis by (simp add: fag_group_def)
    next
      case (Some gene)
      from fag_collect_cases [of table gene "take (c - 1) input" "[line]"]
      show ?thesis
      proof
        assume "fag_collect table gene (take (c - 1) input) [line] = Inl (Return 7)"
        then show ?thesis using Some by (simp add: fag_group_def)
      next
        assume "\<exists>grp'. fag_collect table gene (take (c - 1) input) [line] = Inr grp'
          \<and> (if \<forall>l\<in>set (take (c - 1) input). table (extract_transcript_id l) = Some gene
              then grp' = [line] @ take (c - 1) input
              else length grp' < length (take (c - 1) input))"
        then obtain grp' where
          c: "fag_collect table gene (take (c - 1) input) [line] = Inr grp'"
          and d: "grp' = line # take (c - 1) input \<or> length grp' < length (take (c - 1) input)"
          by (auto split: if_splits)
        from d show ?thesis
        proof
          assume "grp' = line # take (c - 1) input"
          then show ?thesis using Some c by (simp add: fag_group_def)
        next
          assume "length grp' < length (take (c - 1) input)"
          then have "length grp' < c - 1" by simp
          then have "length grp' \<noteq> c" by arith
          then show ?thesis using Some c by (simp add: fag_group_def)
        qed
      qed
    qed
    show "\<exists>out n. (out = [] \<or> out = line # take n input)
          \<and> (fag_step table line input = Next out n
               \<or> (\<exists>a. fag_step table line input = Stop out a))"
    proof (cases "read_count line")
      case None
      then show ?thesis by (auto simp add: fag_step_def)
    next
      case (Some r)
      show ?thesis
      proof (cases r)
        case (Inl e)
        then show ?thesis using Some by (auto simp add: fag_step_def)
      next
        case (Inr c)
        show ?thesis
        proof (cases "line = [] \<or> hd line = CHR ''@'' \<or> c = 1")
          case True
          have "[line] = line # take 0 input" by simp
          then show ?thesis using True Some Inr
            by (auto simp add: fag_step_def simp del: take_eq_Nil)
        next
          case False
          then have "fag_step table line input = fag_group table line input c"
            using Some Inr by (simp add: fag_step_def)
          then show ?thesis using grp [of c] by metis
        qed
      qed
    qed
  qed
qed

theorem gene_ambiguity_keeps_or_drops_whole_group_witness:
  "read_count (sam_line ''0'' ''T1'' ''5M'' ''3'' ''1'') = Some (Inr 3)
   \<and> fag_step [''T1'' \<mapsto> ''G1'', ''T2'' \<mapsto> ''G1'', ''T3'' \<mapsto> ''G2''] (sam_line ''0'' ''T1'' ''5M'' ''3'' ''1'')
        [sam_line ''256'' ''T2'' ''5M'' ''3'' ''2'', sam_line ''256'' ''T2'' ''4M'' ''3'' ''3'']
      = Next [sam_line ''0'' ''T1'' ''5M'' ''3'' ''1'', sam_line ''256'' ''T2'' ''5M'' ''3'' ''2'',
              sam_line ''256'' ''T2'' ''4M'' ''3'' ''3''] 2
   \<and> fag_step [''T1'' \<mapsto> ''G1'', ''T2'' \<mapsto> ''G1'', ''T3'' \<mapsto> ''G2''] (sam_line ''0'' ''T1'' ''5M'' ''3'' ''1'')
        [sam_line ''256'' ''T2'' ''5M'' ''3'' ''2'', sam_line ''256'' ''T3'' ''5M'' ''3'' ''3'']
      = Next [] 2"
proof -
  let ?table = "[''T1'' \<mapsto> ''G1'', ''T2'' \<mapsto> ''G1'', ''T3'' \<mapsto> ''G2'']"
  let ?a = "sam_line ''0'' ''T1'' ''5M'' ''3'' ''1''"
  let ?b = "sam_line ''256'' ''T2'' ''5M'' ''3'' ''2''"
  let ?c = "sam_line ''256'' ''T2'' ''4M'' ''3'' ''3''"
  let ?d = "sam_line ''256'' ''T3'' ''5M'' ''3'' ''3''"
  have h1: "?a \<noteq> []" and h2: "hd ?a \<noteq> CHR ''@''"
    by (simp_all add: sam_line_def)
  have h3: "read_count ?a = Some (Inr 3)"
    by (simp add: eval_simps)
  have h4: "(1::nat) < 3" by simp
  have h5: "3 - 1 \<le> length [?b, ?c]" and h5': "3 - 1 \<le> length [?b, ?d]" by simp_all
  have t: "take (3 - 1) [?b, ?c] = [?b, ?c]" "take (3 - 1) [?b, ?d] = [?b, ?d]" by simp_all
  have ids: "?table (extract_transcript_id ?a) = Some ''G1''"
    "?table (extract_transcript_id ?b) = Some ''G1''"
    "?table (extract_transcript_id ?c) = Some ''G1''"
    "?table (extract_transcript_id ?d) = Some ''G2''"
    by (simp_all add: eval_simps)
  have h6: "\<forall>l\<in>set (?a # take (3 - 1) [?b, ?c]). ?table (extract_transcript_id l) \<noteq> None"
    unfolding t using ids by simp
  have h6': "\<forall>l\<in>set (?a # take (3 - 1) [?b, ?d]). ?table (extract_transcript_id l) \<noteq> None"
    unfolding t using ids by simp
  have e1: "\<forall>l\<in>set (take (3 - 1) [?b, ?c]).
      ?table (extract_transcript_id l) = ?table (extract_transcript_id ?a)"
    unfolding t using ids by simp
  have e2: "\<not> (\<forall>l\<in>set (take (3 - 1) [?b, ?d]).
      ?table (extract_transcript_id l) = ?table (extract_transcript_id ?a))"
    unfolding t using ids by simp
  have r1: "fag_step ?table ?a [?b, ?c] = Next (?a # take (3 - 1) [?b, ?c]) (3 - 1)"
    using gene_ambiguity_keeps_or_drops_whole_group [OF h1 h2 h3 h4 h5 h6, THEN conjunct1]
    by (simp only: if_P [OF e1])
  have r2: "fag_step ?table ?a [?b, ?d] = Next [] (3 - 1)"
    using gene_ambiguity_keeps_or_drops_whole_group [OF h1 h2 h3 h4 h5' h6', THEN conjunct1]
    by (simp only: if_not_P [OF e2])
  show ?thesis using h3 r1 r2 by simp
qed

section \<open>Groups that lose no line\<close>

text \<open>
  C6, as the code has it: when every line of a complete group of \<open>count > 1\<close> lines is kept
  (a clear reverse flag in \<^verbatim>\<open>filter_reverse_reads\<close>; a wanted transcript in
  \<^verbatim>\<open>select_transcripts\<close>) and, in \<^verbatim>\<open>select_transcripts\<close>, the FLAG of every line can be
  read by \<open>primary_flag\<close>, the lines written are the lines read, in the same order. A kept line
  of \<^verbatim>\<open>filter_reverse_reads\<close> has a readable FLAG, since \<open>forward_flag\<close> has read it.
\<close>

theorem full_group_is_written_unchanged:
  assumes "line \<noteq> []" and "hd line \<noteq> CHR ''@''"
    and "read_count line = Some (Inr count)" and "1 < count"
    and "count - 1 \<le> length rest"
  shows "((\<forall>l\<in>set (line # take (count - 1) rest). forward_flag l = Inr True) \<longrightarrow>
           frr_step line rest = Next (line # take (count - 1) rest) (count - 1))
    \<and> ((\<forall>l\<in>set (line # take (count - 1) rest).
            extract_transcript_id l \<in> ids \<and> (\<exists>b. primary_flag l = Inr b)) \<longrightarrow>
           sel_step ids line rest = Next (line # take (count - 1) rest) (count - 1))"
proof (intro conjI impI)
  have n: "count \<noteq> 1" using assms(4) by simp
  have len: "length (line # take (count - 1) rest) = count" using assms(4,5) by simp
  {
    assume "\<forall>l\<in>set (line # take (count - 1) rest). forward_flag l = Inr True"
    from frr_collect_all_forward [OF this, of "[]" None False]
    obtain p' where "frr_collect (line # take (count - 1) rest) ([], None, False)
        = Inr (line # take (count - 1) rest, p', False)"
      by auto
    then show "frr_step line rest = Next (line # take (count - 1) rest) (count - 1)"
      using assms n by (simp add: frr_step_def frr_group_def del: frr_collect.simps)
  }
  {
    assume "\<forall>l\<in>set (line # take (count - 1) rest).
            extract_transcript_id l \<in> ids \<and> (\<exists>b. primary_flag l = Inr b)"
    from sel_collect_all_kept [OF this, of "[]" None]
    obtain p' where "sel_collect ids (line # take (count - 1) rest) ([], None)
        = Inr (line # take (count - 1) rest, p')"
      by auto
    then show "sel_step ids line rest = Next (line # take (count - 1) rest) (count - 1)"
      using assms n len by (simp add: sel_step_def sel_group_def del: sel_collect.simps)
  }
qed

theorem full_group_is_written_unchanged_witness:
  "read_count (sam_line ''0'' ''T1'' ''5M'' ''2'' ''1'') = Some (Inr 2)
   \<and> forward_flag (sam_line ''0'' ''T1'' ''5M'' ''2'' ''1'') = Inr True
   \<and> forward_flag (sam_line ''256'' ''T2'' ''5M'' ''2'' ''2'') = Inr True
   \<and> extract_transcript_id (sam_line ''0'' ''T1'' ''5M'' ''2'' ''1'') = ''T1''
   \<and> extract_transcript_id (sam_line ''256'' ''T2'' ''5M'' ''2'' ''2'') = ''T2''
   \<and> frr_step (sam_line ''0'' ''T1'' ''5M'' ''2'' ''1'') [sam_line ''256'' ''T2'' ''5M'' ''2'' ''2'']
       = Next [sam_line ''0'' ''T1'' ''5M'' ''2'' ''1'', sam_line ''256'' ''T2'' ''5M'' ''2'' ''2''] 1
   \<and> sel_step {''T1'', ''T2''} (sam_line ''0'' ''T1'' ''5M'' ''2'' ''1'')
         [sam_line ''256'' ''T2'' ''5M'' ''2'' ''2'']
       = Next [sam_line ''0'' ''T1'' ''5M'' ''2'' ''1'', sam_line ''256'' ''T2'' ''5M'' ''2'' ''2''] 1"
proof -
  let ?a = "sam_line ''0'' ''T1'' ''5M'' ''2'' ''1''"
  let ?b = "sam_line ''256'' ''T2'' ''5M'' ''2'' ''2''"
  have h1: "?a \<noteq> []" and h2: "hd ?a \<noteq> CHR ''@''"
    by (simp_all add: sam_line_def)
  have h3: "read_count ?a = Some (Inr 2)"
    by (simp add: eval_simps)
  have h4: "(1::nat) < 2" by simp
  have h5: "2 - 1 \<le> length [?b]" by simp
  have t: "take (2 - 1) [?b] = [?b]" by simp
  have fw: "forward_flag ?a = Inr True" "forward_flag ?b = Inr True"
    by (simp_all add: eval_simps)
  have pr: "primary_flag ?a = Inr True" "primary_flag ?b = Inr False"
    by (simp_all add: eval_simps)
  have ids: "extract_transcript_id ?a = ''T1''" "extract_transcript_id ?b = ''T2''"
    by (simp_all add: eval_simps)
  have f: "\<forall>l\<in>set (?a # take (2 - 1) [?b]). forward_flag l = Inr True"
    unfolding t using fw by simp
  have s: "\<forall>l\<in>set (?a # take (2 - 1) [?b]).
      extract_transcript_id l \<in> {''T1'', ''T2''} \<and> (\<exists>b. primary_flag l = Inr b)"
    unfolding t using ids pr by auto
  from full_group_is_written_unchanged [OF h1 h2 h3 h4 h5, of "{''T1'', ''T2''}"] f s
  have "frr_step ?a [?b] = Next (?a # take (2 - 1) [?b]) (2 - 1)"
    and "sel_step {''T1'', ''T2''} ?a [?b] = Next (?a # take (2 - 1) [?b]) (2 - 1)"
    by blast+
  then show ?thesis using h3 fw ids by simp
qed

text \<open>The claim C6 as stated fails: \<^verbatim>\<open>select_transcripts\<close> reads the FLAG of a line that it
  keeps; when the FLAG is no number the process ends by an uncaught exception and none of the
  lines of the group, all of a wanted transcript, is written.\<close>

theorem allowed_group_with_unreadable_flag_is_lost:
  "read_count unreadable_first = Some (Inr 2)
   \<and> extract_transcript_id unreadable_first = ''T1''
   \<and> extract_transcript_id unreadable_second = ''T1''
   \<and> sel_step {''T1''} unreadable_first [unreadable_second] = Stop [] (Uncaught Invalid_argument)
   \<and> run (sel_step {''T1''}) [unreadable_first, unreadable_second]
       = ([], Some (Uncaught Invalid_argument))"
  by (simp add: unreadable_first_def unreadable_second_def eval_simps)

section \<open>Splitting and joining at tabs\<close>

lemma split_tab_no_tab:
  assumes "TAB \<notin> set p" and "p \<noteq> []"
  shows "split_tab p = [p]"
proof -
  obtain c cs where p: "p = c # cs" using assms(2) by (cases p) auto
  have t: "takeWhile (\<lambda>x. x \<noteq> TAB) (c # cs) = c # cs"
    and d: "dropWhile (\<lambda>x. x \<noteq> TAB) (c # cs) = []"
    using assms(1) p by auto
  show ?thesis
    by (simp only: p split_tab.simps(2) Let_def t d list.case)
qed

lemma takeWhile_dropWhile_tab:
  "TAB \<notin> set p \<Longrightarrow>
   takeWhile (\<lambda>x. x \<noteq> TAB) (p @ TAB # s) = p \<and> dropWhile (\<lambda>x. x \<noteq> TAB) (p @ TAB # s) = TAB # s"
  by (induction p) auto

lemma split_tab_append_tab:
  assumes "TAB \<notin> set p"
  shows "split_tab (p @ TAB # s) = p # split_tab s"
proof -
  have t: "takeWhile (\<lambda>x. x \<noteq> TAB) (p @ TAB # s) = p"
    and d: "dropWhile (\<lambda>x. x \<noteq> TAB) (p @ TAB # s) = TAB # s"
    using takeWhile_dropWhile_tab [OF assms] by simp_all
  obtain c cs where c: "p @ TAB # s = c # cs" by (cases "p @ TAB # s") simp_all
  have "split_tab (c # cs) = (let part = takeWhile (\<lambda>x. x \<noteq> TAB) (c # cs);
          rest = dropWhile (\<lambda>x. x \<noteq> TAB) (c # cs)
      in case rest of [] \<Rightarrow> [part] | t # rest' \<Rightarrow> part # split_tab rest')"
    by (rule split_tab.simps(2))
  also have "\<dots> = p # split_tab s"
    unfolding c [symmetric] t d Let_def by simp
  finally show ?thesis unfolding c [symmetric] .
qed

lemma split_tab_tab_free: "f \<in> set (split_tab s) \<Longrightarrow> TAB \<notin> set f"
proof (induction s arbitrary: f rule: split_tab.induct)
  case 1
  then show ?case by simp
next
  case (2 c cs)
  let ?part = "takeWhile (\<lambda>x. x \<noteq> TAB) (c # cs)"
  let ?rest = "dropWhile (\<lambda>x. x \<noteq> TAB) (c # cs)"
  have p: "TAB \<notin> set ?part"
    by (metis (mono_tags, lifting) set_takeWhileD)
  show ?case
  proof (cases ?rest)
    case Nil
    then have "split_tab (c # cs) = [?part]"
      by (simp only: split_tab.simps(2) Let_def list.case)
    then show ?thesis using "2.prems" p by simp
  next
    case (Cons t rest')
    then have e: "split_tab (c # cs) = ?part # split_tab rest'"
      by (simp only: split_tab.simps(2) Let_def list.case)
    show ?thesis
      using "2.prems" p "2.IH" [OF refl refl Cons] unfolding e by auto
  qed
qed

lemma join_tab_Cons: "ps \<noteq> [] \<Longrightarrow> join_tab (p # ps) = p @ TAB # join_tab ps"
  by (cases ps) simp_all

lemma split_join_tab:
  "\<forall>f\<in>set fs. TAB \<notin> set f \<Longrightarrow>
   split_tab (join_tab fs) = (if fs \<noteq> [] \<and> last fs = [] then butlast fs else fs)"
proof (induction fs)
  case Nil
  then show ?case by simp
next
  case (Cons p ps)
  show ?case
  proof (cases ps)
    case Nil
    then show ?thesis using Cons.prems by (cases "p = []") (simp_all add: split_tab_no_tab)
  next
    case (Cons q qs)
    then have n: "ps \<noteq> []" by simp
    have "split_tab (join_tab (p # ps)) = p # split_tab (join_tab ps)"
      using Cons.prems by (simp add: join_tab_Cons [OF n] split_tab_append_tab)
    then show ?thesis using Cons.IH Cons.prems n by simp
  qed
qed

lemma split_join_tab_nth:
  assumes "\<forall>f\<in>set fs. TAB \<notin> set f" and "j < length fs" and "fs ! j \<noteq> []"
  shows "j < length (split_tab (join_tab fs)) \<and> split_tab (join_tab fs) ! j = fs ! j"
proof (cases "fs \<noteq> [] \<and> last fs = []")
  case True
  then have "fs ! (length fs - 1) = []" using last_conv_nth [of fs] by auto
  then have "j \<noteq> length fs - 1" using assms(3) by auto
  then have "j < length (butlast fs)" using assms(2) by simp
  then show ?thesis using True split_join_tab [OF assms(1)] by (simp add: nth_butlast)
next
  case False
  then show ?thesis using assms(2) split_join_tab [OF assms(1)] by auto
qed

lemma split_join_tab_subset:
  "\<forall>f\<in>set fs. TAB \<notin> set f \<Longrightarrow> set (split_tab (join_tab fs)) \<subseteq> set fs"
  by (auto simp add: split_join_tab dest: in_set_butlastD)

section \<open>Decimal numbers\<close>

lemma digit_char_props:
  "d < 10 \<Longrightarrow> is_digit (digit_char d) \<and> digit_val (digit_char d) = d \<and> digit_char d \<noteq> TAB
     \<and> \<not> is_space (digit_char d) \<and> digit_char d \<noteq> CHR ''-'' \<and> digit_char d \<noteq> CHR ''+''
     \<and> digit_char d \<noteq> CHR ''N'' \<and> digit_char d \<noteq> CHR ''H''"
proof -
  assume "d < 10"
  then have "d = 0 \<or> d = 1 \<or> d = 2 \<or> d = 3 \<or> d = 4 \<or> d = 5 \<or> d = 6 \<or> d = 7 \<or> d = 8 \<or> d = 9"
    by arith
  then show ?thesis
    by (elim disjE) (simp_all add: digit_char_def is_digit_def digit_val_def is_space_def)
qed

lemma to_string_digits: "c \<in> set (to_string n) \<Longrightarrow> \<exists>d<10. c = digit_char d"
proof (induction n arbitrary: c rule: to_string.induct)
  case (1 n)
  show ?case
  proof (cases "n < 10")
    case True
    then show ?thesis using "1.prems" by (auto simp add: to_string.simps [of n])
  next
    case False
    have m: "n mod 10 < 10" by simp
    from "1.prems" False have "c \<in> set (to_string (n div 10)) \<or> c = digit_char (n mod 10)"
      by (auto simp add: to_string.simps [of n])
    then show ?thesis using "1.IH" [OF False] m by blast
  qed
qed

lemma to_string_not_Nil: "to_string n \<noteq> []"
  by (simp add: to_string.simps [of n])

lemma to_string_tab_free: "TAB \<notin> set (to_string n)"
proof
  assume "TAB \<in> set (to_string n)"
  then obtain d where "d < 10" "TAB = digit_char d"
    using to_string_digits by blast
  then show False using digit_char_props [of d] by simp
qed

lemma to_string_all_digits: "\<forall>c\<in>set (to_string n). is_digit c"
proof
  fix c assume "c \<in> set (to_string n)"
  then obtain d where "d < 10" "c = digit_char d"
    using to_string_digits by blast
  then show "is_digit c" using digit_char_props [of d] by simp
qed

lemma digits_val_append: "digits_val acc (xs @ ys) = digits_val (digits_val acc xs) ys"
  by (induction xs arbitrary: acc) simp_all

lemma digits_val_to_string: "digits_val 0 (to_string n) = n"
proof (induction n rule: to_string.induct)
  case (1 n)
  show ?case
  proof (cases "n < 10")
    case True
    then show ?thesis using digit_char_props [of n] by (simp add: to_string.simps [of n])
  next
    case False
    have m: "n mod 10 < 10" by simp
    show ?thesis
      using "1.IH" [OF False] False digit_char_props [OF m]
      by (simp add: to_string.simps [of n] digits_val_append)
  qed
qed

lemma stoull_to_string:
  assumes "n < 2 ^ 64"
  shows "stoull (to_string n) = Inr n"
proof -
  obtain c cs where s: "to_string n = c # cs"
    using to_string_not_Nil [of n] by (cases "to_string n") auto
  then obtain d where d: "d < 10" "c = digit_char d"
    using to_string_digits [of c n] by auto
  have c: "\<not> is_space c" "c \<noteq> CHR ''-''" "c \<noteq> CHR ''+''"
    using digit_char_props [OF d(1)] d(2) by simp_all
  have w: "dropWhile is_space (to_string n) = to_string n"
    using c s by simp
  have g: "strip_sign (to_string n) = (False, to_string n)"
    using c s by (simp add: strip_sign_def)
  have t: "takeWhile is_digit (to_string n) = to_string n"
    using to_string_all_digits by simp
  show ?thesis
    using assms to_string_not_Nil [of n]
    by (simp add: stoull_def w g t digits_val_to_string)
qed

lemma stoull_bound: "stoull s = Inr v \<Longrightarrow> v < 2 ^ 64"
  by (auto simp add: stoull_def Let_def split: prod.splits if_splits)

lemma to_string_not_tag: "\<not> starts_with (CHR ''N'' # p) (to_string n) \<and> \<not> starts_with (CHR ''H'' # p) (to_string n)"
proof -
  obtain c cs where s: "to_string n = c # cs"
    using to_string_not_Nil [of n] by (cases "to_string n") auto
  then obtain d where d: "d < 10" "c = digit_char d"
    using to_string_digits [of c n] by auto
  show ?thesis using digit_char_props [OF d(1)] d(2) s by auto
qed

section \<open>The FLAG column\<close>

lemma index_of_Some:
  "index_of c s = Some i \<Longrightarrow> \<exists>a b. s = a @ c # b \<and> c \<notin> set a \<and> i = length a"
proof (induction s arbitrary: i)
  case Nil
  then show ?case by simp
next
  case (Cons x xs)
  show ?case
  proof (cases "x = c")
    case True
    then have "i = 0" using Cons.prems by simp
    then show ?thesis using True by (intro exI [of _ "[]"] exI [of _ xs]) simp
  next
    case False
    then obtain k where k: "index_of c xs = Some k" "i = Suc k"
      using Cons.prems by auto
    from Cons.IH [OF k(1)] obtain a b where "xs = a @ c # b" "c \<notin> set a" "k = length a"
      by blast
    then show ?thesis using False k(2)
      by (intro exI [of _ "x # a"] exI [of _ b]) simp
  qed
qed

lemma index_of_append: "c \<notin> set a \<Longrightarrow> index_of c (a @ c # b) = Some (length a)"
  by (induction a) auto

lemma check_flag_two_tabs:
  assumes "TAB \<notin> set a" and "TAB \<notin> set fl"
  shows "check_flag (a @ TAB # fl @ TAB # r) flag
    = (case stoull fl of Inl e \<Rightarrow> Inl e | Inr v \<Rightarrow> Inr (v AND flag = 0))"
proof -
  let ?l = "a @ TAB # fl @ TAB # r"
  have f1: "find_char TAB ?l 0 = Some (length a)"
    using assms(1) by (simp add: find_char_def index_of_append)
  have "drop (length a + 1) ?l = fl @ TAB # r" by simp
  then have f2: "find_char TAB ?l (length a + 1) = Some (length fl + (length a + 1))"
    using assms(2) by (simp add: find_char_def index_of_append del: drop_append)
  have s: "substr ?l (length a + 1) (length fl + (length a + 1) - (length a + 1)) = fl"
    by (simp add: substr_def)
  show ?thesis
    unfolding check_flag_def f1 option.case Let_def f2 s ..
qed

lemma check_flag_True_shape:
  assumes "check_flag line flag = Inr True"
  shows "\<exists>a fl r. line = a @ TAB # fl @ TAB # r \<and> TAB \<notin> set a \<and> TAB \<notin> set fl"
proof -
  from assms obtain i where i: "find_char TAB line 0 = Some i"
    by (auto simp add: check_flag_def split: option.splits)
  then obtain a b where ab: "line = a @ TAB # b" "TAB \<notin> set a" "i = length a"
    using index_of_Some [of TAB line i] by (auto simp add: find_char_def)
  from assms i obtain k where k: "find_char TAB line (i + 1) = Some k"
    by (auto simp add: check_flag_def Let_def split: option.splits)
  have "drop (i + 1) line = b" using ab by simp
  then obtain k' where "index_of TAB b = Some k'"
    using k by (auto simp add: find_char_def)
  then obtain fl r where "b = fl @ TAB # r" "TAB \<notin> set fl"
    using index_of_Some [of TAB b k'] by blast
  then show ?thesis using ab by blast
qed

lemma split_tab_two_tabs:
  "TAB \<notin> set a \<Longrightarrow> TAB \<notin> set fl \<Longrightarrow>
   split_tab (a @ TAB # fl @ TAB # r) = a # fl # split_tab r"
  by (simp add: split_tab_append_tab)

section \<open>The rewriting of a group\<close>

lemma rewrite_parts_Inr:
  "rewrite_parts sz mq pr i j fs = Inr fs' \<Longrightarrow>
   length fs' = length fs
   \<and> (\<forall>t<length fs. rewrite_part sz mq pr i (j + t) (fs ! t) = Inr (fs' ! t))"
proof (induction fs arbitrary: j fs')
  case Nil
  then show ?case by simp
next
  case (Cons f fs)
  from Cons.prems obtain f' fs'' where
    a: "rewrite_part sz mq pr i j f = Inr f'"
    and b: "rewrite_parts sz mq pr i (j + 1) fs = Inr fs''"
    and c: "fs' = f' # fs''"
    by (auto split: sum.splits)
  from Cons.IH [OF b] have l: "length fs'' = length fs"
    and n: "\<And>t. t < length fs \<Longrightarrow> rewrite_part sz mq pr i (j + 1 + t) (fs ! t) = Inr (fs'' ! t)"
    by auto
  have "rewrite_part sz mq pr i (j + t) ((f # fs) ! t) = Inr (fs' ! t)" if "t < length (f # fs)" for t
  proof (cases t)
    case 0
    then show ?thesis using a c by simp
  next
    case (Suc u)
    then show ?thesis using n [of u] that c by simp
  qed
  then show ?case using l c by simp
qed

lemma rewrite_part_tab_free:
  assumes "rewrite_part sz mq pr i j f = Inr f'" and "TAB \<notin> set f" and "TAB \<notin> set mq"
  shows "TAB \<notin> set f'"
  using assms to_string_tab_free
  by (auto simp add: rewrite_part_def split: if_splits sum.splits)

lemma rewrite_part_tags:
  assumes "rewrite_part sz (to_string m) pr i j f = Inr f'"
  shows "(starts_with ''NH:i:'' f' \<longrightarrow> f' = ''NH:i:'' @ to_string sz)
    \<and> (starts_with ''HI:i:'' f' \<longrightarrow> f' = ''HI:i:'' @ to_string (i + 1))"
proof -
  have n: "\<not> starts_with ''NH:i:'' (to_string k)" "\<not> starts_with ''HI:i:'' (to_string k)" for k
    using to_string_not_tag [of "''H:i:''" k] to_string_not_tag [of "''I:i:''" k] by simp_all
  show ?thesis
    using assms n
    by (auto simp add: rewrite_part_def split: if_splits sum.splits)
qed

lemma rewrite_part_other:
  assumes "j \<noteq> 5" and "\<not> (j = 2 \<and> pr)"
  shows "rewrite_part sz mq pr i j f
    = Inr (if starts_with ''NH:i:'' f then ''NH:i:'' @ to_string sz
           else if starts_with ''HI:i:'' f then ''HI:i:'' @ to_string (i + 1) else f)"
  using assms by (auto simp add: rewrite_part_def)

lemma rewrite_line_fields:
  assumes "rewrite_line sz mq primary i line = Inr l" and "TAB \<notin> set mq"
  shows "\<exists>fs'. l = join_tab fs' \<and> length fs' = length (split_tab line)
    \<and> (\<forall>f\<in>set fs'. TAB \<notin> set f)
    \<and> (\<forall>t<length fs'. rewrite_part sz mq (primary = Some i) i (Suc t) (split_tab line ! t)
          = Inr (fs' ! t))"
proof -
  from assms(1) obtain fs' where
    r: "rewrite_parts sz mq (primary = Some i) i 1 (split_tab line) = Inr fs'"
    and l: "l = join_tab fs'"
    by (auto simp add: rewrite_line_def split: sum.splits)
  from rewrite_parts_Inr [OF r] have len: "length fs' = length (split_tab line)"
    and p: "\<And>t. t < length (split_tab line) \<Longrightarrow>
      rewrite_part sz mq (primary = Some i) i (Suc t) (split_tab line ! t) = Inr (fs' ! t)"
    by auto
  have "TAB \<notin> set f" if "f \<in> set fs'" for f
  proof -
    from that obtain t where t: "t < length fs'" "f = fs' ! t"
      by (auto simp add: in_set_conv_nth)
    have "TAB \<notin> set (split_tab line ! t)"
      using t(1) len by (intro split_tab_tab_free [of _ line]) simp
    then show ?thesis
      using rewrite_part_tab_free [OF p [of t]] t len assms(2) by simp
  qed
  then show ?thesis using l len p by auto
qed

lemma rewrite_lines_None:
  "rewrite_lines sz mq primary i g = (out, None) \<Longrightarrow>
   length out = length g
   \<and> (\<forall>t<length g. rewrite_line sz mq primary (i + t) (g ! t) = Inr (out ! t))"
proof (induction g arbitrary: i out)
  case Nil
  then show ?case by simp
next
  case (Cons x g)
  from Cons.prems obtain l out' where
    a: "rewrite_line sz mq primary i x = Inr l"
    and b: "rewrite_lines sz mq primary (i + 1) g = (out', None)"
    and c: "out = l # out'"
    by (auto split: sum.splits prod.splits)
  from Cons.IH [OF b] have len: "length out' = length g"
    and n: "\<And>t. t < length g \<Longrightarrow> rewrite_line sz mq primary (i + 1 + t) (g ! t) = Inr (out' ! t)"
    by auto
  have "rewrite_line sz mq primary (i + t) ((x # g) ! t) = Inr (out ! t)" if "t < length (x # g)" for t
  proof (cases t)
    case 0
    then show ?thesis using a c by simp
  next
    case (Suc u)
    then show ?thesis using n [of u] that c by simp
  qed
  then show ?case using len c by simp
qed

lemma rewrite_group_None:
  assumes "rewrite_group g p = (out, w, None)"
  shows "rewrite_lines (length g) (to_string (mapq_value (length g)))
           (if p = None then Some 0 else None) 0 g = (out, None)
    \<and> (p = None \<longrightarrow> (\<exists>cigars. cigars_of g = Inr cigars \<and> w = not_implemented cigars))
    \<and> (p \<noteq> None \<longrightarrow> w = 0)"
  using assms
  by (auto simp add: rewrite_group_def split: option.splits sum.splits prod.splits)

lemma rewrite_group_lines:
  assumes "rewrite_group g p = (out, w, None)"
  shows "length out = length g
    \<and> (\<forall>i<length g. \<exists>fs'. out ! i = join_tab fs' \<and> length fs' = length (split_tab (g ! i))
          \<and> (\<forall>f\<in>set fs'. TAB \<notin> set f)
          \<and> (\<forall>t<length fs'.
                rewrite_part (length g) (to_string (mapq_value (length g)))
                  (p = None \<and> i = 0) i (Suc t) (split_tab (g ! i) ! t) = Inr (fs' ! t)))"
proof -
  let ?mq = "to_string (mapq_value (length g))"
  let ?pr = "if p = None then Some 0 else None"
  from rewrite_group_None [OF assms]
  have "rewrite_lines (length g) ?mq ?pr 0 g = (out, None)" by simp
  from rewrite_lines_None [OF this]
  have len: "length out = length g"
    and n: "\<And>i. i < length g \<Longrightarrow> rewrite_line (length g) ?mq ?pr i (g ! i) = Inr (out ! i)"
    by auto
  have e: "(?pr = Some i) = (p = None \<and> i = 0)" for i :: nat by auto
  show ?thesis
    using len rewrite_line_fields [OF n to_string_tab_free] unfolding e by blast
qed

section \<open>The bit 256\<close>

lemma xor_clears_exp:
  assumes "v AND 2 ^ n \<noteq> (0::nat)"
  shows "(v XOR 2 ^ n) AND 2 ^ n = 0"
proof -
  have "bit v n" using assms by (simp add: and_exp_eq_0_iff_not_bit)
  then have "\<not> bit (v XOR 2 ^ n) n" by (simp add: bit_xor_iff bit_exp_iff)
  then show ?thesis by (simp add: and_exp_eq_0_iff_not_bit)
qed

lemma xor_clears_bit:
  assumes "v AND 256 \<noteq> (0::nat)"
  shows "(v XOR 256) AND 256 = 0"
  using assms xor_clears_exp [of v 8] by simp

lemma xor_bound:
  assumes "v < 2 ^ 64"
  shows "v XOR 256 < (2::nat) ^ 64"
proof -
  have "take_bit 64 v = v" "take_bit 64 (256::nat) = 256"
    using assms by (simp_all add: take_bit_nat_eq_self_iff)
  then have "take_bit 64 (v XOR 256) = v XOR 256"
    by simp
  then show ?thesis by (simp only: take_bit_nat_eq_self_iff)
qed

lemma stoull_first_char:
  "stoull (c # cs) = Inr v \<Longrightarrow> is_digit c \<or> is_space c \<or> c = CHR ''-'' \<or> c = CHR ''+''"
  by (auto simp add: stoull_def strip_sign_def Let_def split: if_splits prod.splits list.splits)

lemma stoull_Nil: "stoull [] = Inl Invalid_argument"
  by (simp add: stoull_def strip_sign_def)

section \<open>A group that lost a line\<close>

lemma sel_collect_result:
  assumes "sel_collect ids ls (g, p) = Inr (g', p')"
  shows "g' = g @ filter (\<lambda>l. extract_transcript_id l \<in> ids) ls
    \<and> ((p' = None) = (p = None \<and> (\<forall>l\<in>set ls. extract_transcript_id l \<in> ids \<longrightarrow> primary_flag l = Inr False)))
    \<and> (\<forall>l\<in>set ls. extract_transcript_id l \<in> ids \<longrightarrow> (\<exists>b. primary_flag l = Inr b))"
  using assms
proof (induction ls arbitrary: g p)
  case Nil
  then show ?case by simp
next
  case (Cons l ls)
  show ?case
  proof (cases "extract_transcript_id l \<in> ids")
    case False
    then have "sel_collect ids ls (g, p) = Inr (g', p')"
      using Cons.prems by simp
    from Cons.IH [OF this] show ?thesis using False by auto
  next
    case True
    then obtain q where q: "primary_flag l = Inr q"
      using Cons.prems by (auto split: sum.splits)
    then have "sel_collect ids ls (g @ [l], if q then Some (length g) else p) = Inr (g', p')"
      using Cons.prems True by simp
    from Cons.IH [OF this] show ?thesis using True q by auto
  qed
qed

lemma frr_step_rewritten:
  assumes "frr_step line rest = Next out n"
    and "line \<noteq> []" and "hd line \<noteq> CHR ''@''"
    and "read_count line = Some (Inr count)" and "1 < count"
    and "length (frr_survivors line rest count) < count"
  shows "\<exists>p w. rewrite_group (frr_survivors line rest count) p = (out, w, None)
    \<and> ((p = None) = (\<forall>s\<in>set (frr_survivors line rest count). primary_flag s = Inr False))
    \<and> (\<forall>s\<in>set (frr_survivors line rest count). forward_flag s = Inr True)
    \<and> n = count - 1 \<and> count - 1 \<le> length rest"
proof -
  let ?lines = "line # take (count - 1) rest"
  have n1: "count \<noteq> 1" using assms(5) by simp
  have grp: "frr_group line rest count = Next out n"
    using assms(1-4) n1 by (simp add: frr_step_def)
  then obtain g p m where c: "frr_collect ?lines ([], None, False) = Inr (g, p, m)"
    unfolding frr_group_def by (cases "frr_collect ?lines ([], None, False)") auto
  have le: "count - 1 \<le> length rest"
    using grp unfolding frr_group_def c by (auto split: if_splits)
  then have len: "length ?lines = count" using assms(5) by simp
  from frr_collect_result [OF c]
  have g: "g = frr_survivors line rest count"
    and m: "m = (\<exists>l\<in>set ?lines. forward_flag l = Inr False)"
    and p: "(p = None) = (\<forall>l\<in>set ?lines. forward_flag l = Inr True \<longrightarrow> primary_flag l = Inr False)"
    and d: "\<forall>l\<in>set ?lines. \<exists>b. forward_flag l = Inr b"
    by (simp_all add: frr_survivors_def)
  have "\<exists>l\<in>set ?lines. forward_flag l \<noteq> Inr True"
  proof (rule ccontr)
    assume "\<not> (\<exists>l\<in>set ?lines. forward_flag l \<noteq> Inr True)"
    then have "filter (\<lambda>l. forward_flag l = Inr True) ?lines = ?lines"
      by (intro filter_True) blast
    then have "length (frr_survivors line rest count) = count"
      using len unfolding frr_survivors_def by simp
    then show False using assms(6) by simp
  qed
  then have m': "m" using m d by (metis (full_types))
  obtain out' w a where r: "rewrite_group g p = (out', w, a)"
    by (cases "rewrite_group g p") auto
  have nle: "\<not> length rest < count - 1" using le by simp
  have "(case rewrite_group g p of
           (out, w, Some a) \<Rightarrow> Stop out a
         | (out, w, None) \<Rightarrow> Next out (count - 1)) = Next out n"
    using grp unfolding frr_group_def c sum.case prod.case if_not_P [OF nle] if_P [OF m'] .
  then have "a = None \<and> out' = out \<and> n = count - 1"
    unfolding r by (cases a) auto
  then have r': "rewrite_group (frr_survivors line rest count) p = (out, w, None)"
    and n: "n = count - 1"
    using r g by simp_all
  have p': "(p = None) = (\<forall>s\<in>set (frr_survivors line rest count). primary_flag s = Inr False)"
    unfolding p frr_survivors_def by auto
  have f: "\<forall>s\<in>set (frr_survivors line rest count). forward_flag s = Inr True"
    unfolding frr_survivors_def by simp
  from r' p' f n le show ?thesis by blast
qed

lemma sel_step_rewritten:
  assumes "sel_step ids line rest = Next out n"
    and "line \<noteq> []" and "hd line \<noteq> CHR ''@''"
    and "read_count line = Some (Inr count)" and "1 < count"
    and "length (sel_survivors ids line rest count) < count"
  shows "\<exists>p w. rewrite_group (sel_survivors ids line rest count) p = (out, w, None)
    \<and> ((p = None) = (\<forall>s\<in>set (sel_survivors ids line rest count). primary_flag s = Inr False))
    \<and> (\<forall>s\<in>set (sel_survivors ids line rest count). \<exists>b. primary_flag s = Inr b)
    \<and> n = count - 1 \<and> count - 1 \<le> length rest"
proof -
  let ?lines = "line # take (count - 1) rest"
  have n1: "count \<noteq> 1" using assms(5) by simp
  have grp: "sel_group ids line rest count = Next out n"
    using assms(1-4) n1 by (simp add: sel_step_def)
  then obtain g p where c: "sel_collect ids ?lines ([], None) = Inr (g, p)"
    unfolding sel_group_def by (cases "sel_collect ids ?lines ([], None)") auto
  have le: "count - 1 \<le> length rest"
    using grp unfolding sel_group_def c by (auto split: if_splits)
  from sel_collect_result [OF c]
  have g: "g = sel_survivors ids line rest count"
    and p: "(p = None) = (\<forall>l\<in>set ?lines. extract_transcript_id l \<in> ids \<longrightarrow> primary_flag l = Inr False)"
    and d: "\<forall>l\<in>set ?lines. extract_transcript_id l \<in> ids \<longrightarrow> (\<exists>b. primary_flag l = Inr b)"
    by (simp_all add: sel_survivors_def)
  have ne: "length g \<noteq> count" using assms(6) g by simp
  obtain out' w a where r: "rewrite_group g p = (out', w, a)"
    by (cases "rewrite_group g p") auto
  have nle: "\<not> length rest < count - 1" using le by simp
  have "(case rewrite_group g p of
           (out, w, Some a) \<Rightarrow> Stop out a
         | (out, w, None) \<Rightarrow> Next out (count - 1)) = Next out n"
    using grp unfolding sel_group_def c sum.case prod.case if_not_P [OF nle] if_not_P [OF ne] .
  then have "a = None \<and> out' = out \<and> n = count - 1"
    unfolding r by (cases a) auto
  then have r': "rewrite_group (sel_survivors ids line rest count) p = (out, w, None)"
    and n: "n = count - 1"
    using r g by simp_all
  have p': "(p = None) = (\<forall>s\<in>set (sel_survivors ids line rest count). primary_flag s = Inr False)"
    unfolding p sel_survivors_def by auto
  have f: "\<forall>s\<in>set (sel_survivors ids line rest count). \<exists>b. primary_flag s = Inr b"
    using d unfolding sel_survivors_def by simp
  from r' p' f n le show ?thesis by blast
qed

lemma rewrite_group_fields:
  assumes "rewrite_group g p = (out, w, None)" and "i < length g"
  shows "(\<forall>f\<in>set (split_tab (out ! i)).
            (starts_with ''NH:i:'' f \<longrightarrow> f = ''NH:i:'' @ to_string (length g))
            \<and> (starts_with ''HI:i:'' f \<longrightarrow> f = ''HI:i:'' @ to_string (i + 1)))
    \<and> (\<forall>j<length (split_tab (g ! i)).
          j \<noteq> 1 \<and> j \<noteq> 4 \<and> split_tab (g ! i) ! j \<noteq> [] \<longrightarrow>
          j < length (split_tab (out ! i))
          \<and> split_tab (out ! i) ! j =
              (if starts_with ''NH:i:'' (split_tab (g ! i) ! j) then ''NH:i:'' @ to_string (length g)
               else if starts_with ''HI:i:'' (split_tab (g ! i) ! j) then ''HI:i:'' @ to_string (i + 1)
               else split_tab (g ! i) ! j))
    \<and> (4 < length (split_tab (g ! i)) \<longrightarrow>
          4 < length (split_tab (out ! i))
          \<and> split_tab (out ! i) ! 4 = to_string (mapq_value (length g)))"
proof -
  let ?mq = "to_string (mapq_value (length g))"
  let ?fs = "split_tab (g ! i)"
  from rewrite_group_lines [OF assms(1)] assms(2)
  obtain fs' where o: "out ! i = join_tab fs'" and len: "length fs' = length ?fs"
    and tf: "\<forall>f\<in>set fs'. TAB \<notin> set f"
    and rp: "\<And>t. t < length fs' \<Longrightarrow>
        rewrite_part (length g) ?mq (p = None \<and> i = 0) i (Suc t) (?fs ! t) = Inr (fs' ! t)"
    by blast
  have a: "(starts_with ''NH:i:'' f \<longrightarrow> f = ''NH:i:'' @ to_string (length g))
            \<and> (starts_with ''HI:i:'' f \<longrightarrow> f = ''HI:i:'' @ to_string (i + 1))"
    if "f \<in> set (split_tab (out ! i))" for f
  proof -
    from that have "f \<in> set fs'"
      using split_join_tab_subset [OF tf] o by auto
    then obtain t where t: "t < length fs'" "f = fs' ! t"
      by (auto simp add: in_set_conv_nth)
    show ?thesis using rewrite_part_tags [OF rp [OF t(1)]] t(2) by simp
  qed
  have b: "j < length (split_tab (out ! i))
          \<and> split_tab (out ! i) ! j =
              (if starts_with ''NH:i:'' (?fs ! j) then ''NH:i:'' @ to_string (length g)
               else if starts_with ''HI:i:'' (?fs ! j) then ''HI:i:'' @ to_string (i + 1)
               else ?fs ! j)"
    if j: "j < length ?fs" "j \<noteq> 1" "j \<noteq> 4" "?fs ! j \<noteq> []" for j
  proof -
    have "rewrite_part (length g) ?mq (p = None \<and> i = 0) i (Suc j) (?fs ! j)
        = Inr (if starts_with ''NH:i:'' (?fs ! j) then ''NH:i:'' @ to_string (length g)
               else if starts_with ''HI:i:'' (?fs ! j) then ''HI:i:'' @ to_string (i + 1)
               else ?fs ! j)"
      using j(2,3) by (intro rewrite_part_other) simp_all
    then have e: "fs' ! j = (if starts_with ''NH:i:'' (?fs ! j) then ''NH:i:'' @ to_string (length g)
               else if starts_with ''HI:i:'' (?fs ! j) then ''HI:i:'' @ to_string (i + 1)
               else ?fs ! j)"
      using rp [of j] j(1) len by simp
    then have "fs' ! j \<noteq> []" using j(4) by simp
    from split_join_tab_nth [OF tf _ this] j(1) len
    show ?thesis unfolding o e by simp
  qed
  have c: "4 < length (split_tab (out ! i)) \<and> split_tab (out ! i) ! 4 = ?mq"
    if "4 < length ?fs"
  proof -
    have "rewrite_part (length g) ?mq (p = None \<and> i = 0) i (Suc 4) (?fs ! 4) = Inr ?mq"
      by (simp add: rewrite_part_def)
    then have e: "fs' ! 4 = ?mq" using rp [of 4] that len by simp
    then have "fs' ! 4 \<noteq> []" using to_string_not_Nil by simp
    from split_join_tab_nth [OF tf _ this] that len
    show ?thesis unfolding o e by simp
  qed
  show ?thesis using a b c by blast
qed

lemma stoull_not_tag:
  assumes "stoull fl = Inr v"
  shows "\<not> starts_with ''NH:i:'' fl \<and> \<not> starts_with ''HI:i:'' fl \<and> fl \<noteq> []"
proof (cases fl)
  case Nil
  then show ?thesis using assms by (simp add: stoull_Nil)
next
  case (Cons c cs)
  then have "is_digit c \<or> is_space c \<or> c = CHR ''-'' \<or> c = CHR ''+''"
    using assms stoull_first_char by blast
  then have "c \<noteq> CHR ''N'' \<and> c \<noteq> CHR ''H''"
    by (auto simp add: is_digit_def is_space_def)
  then show ?thesis using Cons by auto
qed

lemma flag_readable_facts:
  assumes "flag_readable s"
  shows "\<exists>a fl rest v. split_tab s = a # fl # rest \<and> stoull fl = Inr v
    \<and> flag_column s = Some fl \<and> primary_flag s = Inr (v AND 256 = 0)
    \<and> secondary_bit_clear s = (v AND 256 = 0)"
proof -
  from assms have c: "check_flag s 0 = Inr True" by (simp add: flag_readable_def)
  from check_flag_True_shape [OF c] obtain a fl r where
    s: "s = a @ TAB # fl @ TAB # r" and a: "TAB \<notin> set a" and f: "TAB \<notin> set fl"
    by blast
  from c obtain v where v: "stoull fl = Inr v"
    unfolding s check_flag_two_tabs [OF a f] by (cases "stoull fl") auto
  have sp: "split_tab s = a # fl # split_tab r"
    unfolding s using a f by (rule split_tab_two_tabs)
  have fc: "flag_column s = Some fl"
    by (simp add: flag_column_def sp)
  have pf: "primary_flag s = Inr (v AND 256 = 0)"
    unfolding primary_flag_def s check_flag_two_tabs [OF a f] v by simp
  have sb: "secondary_bit_clear s = (v AND 256 = 0)"
    by (simp add: secondary_bit_clear_def fc v)
  show ?thesis
    by (intro exI conjI) (rule sp v fc pf sb)+
qed

lemma forward_flag_readable: "forward_flag s = Inr True \<Longrightarrow> flag_readable s"
proof -
  assume c: "forward_flag s = Inr True"
  then have c': "check_flag s 16 = Inr True" by (simp add: forward_flag_def)
  from check_flag_True_shape [OF c'] obtain a fl r where
    s: "s = a @ TAB # fl @ TAB # r" and a: "TAB \<notin> set a" and f: "TAB \<notin> set fl"
    by blast
  from c' obtain v where v: "stoull fl = Inr v"
    unfolding s check_flag_two_tabs [OF a f] by (cases "stoull fl") auto
  show ?thesis
    unfolding flag_readable_def s check_flag_two_tabs [OF a f] v by simp
qed

lemma flag_column_nth:
  "1 < length xs \<Longrightarrow> (case xs of a # f # r \<Rightarrow> Some f | _ \<Rightarrow> None) = Some (xs ! 1)"
  by (cases xs; cases "tl xs") auto

lemma rewrite_group_flag_column:
  assumes r: "rewrite_group g p = (out, w, None)" and i: "i < length g"
    and fl: "flag_column (g ! i) = Some fl" and v: "stoull fl = Inr v"
    and sp: "split_tab (g ! i) = a # fl # rest"
  shows "flag_column (out ! i)
    = Some (if p = None \<and> i = 0 then to_string (v XOR 256) else fl)"
proof -
  let ?mq = "to_string (mapq_value (length g))"
  let ?new = "if p = None \<and> i = 0 then to_string (v XOR 256) else fl"
  from rewrite_group_lines [OF r] i
  obtain fs' where o: "out ! i = join_tab fs'" and len: "length fs' = length (split_tab (g ! i))"
    and tf: "\<forall>f\<in>set fs'. TAB \<notin> set f"
    and rp: "\<And>t. t < length fs' \<Longrightarrow>
        rewrite_part (length g) ?mq (p = None \<and> i = 0) i (Suc t) (split_tab (g ! i) ! t)
          = Inr (fs' ! t)"
    by blast
  have l1: "1 < length fs'" using len sp by simp
  have "rewrite_part (length g) ?mq (p = None \<and> i = 0) i (Suc 1) fl = Inr ?new"
    using stoull_not_tag [OF v] v by (simp add: rewrite_part_def)
  then have e: "fs' ! 1 = ?new" using rp [OF l1] sp by simp
  have "?new \<noteq> []" using stoull_not_tag [OF v] to_string_not_Nil by simp
  then have "fs' ! 1 \<noteq> []" using e by simp
  from split_join_tab_nth [OF tf l1 this]
  have "1 < length (split_tab (out ! i))" and "split_tab (out ! i) ! 1 = ?new"
    unfolding o e by simp_all
  then show ?thesis
    unfolding flag_column_def using flag_column_nth [of "split_tab (out ! i)"] by simp
qed

lemma rewrite_group_flags:
  assumes r: "rewrite_group g p = (out, w, None)"
    and fr: "\<forall>s\<in>set g. flag_readable s"
    and pn: "(p = None) = (\<forall>s\<in>set g. primary_flag s = Inr False)"
  shows "(p \<noteq> None \<longrightarrow> (\<forall>i<length g. flag_column (out ! i) = flag_column (g ! i)))
    \<and> (p = None \<and> g \<noteq> [] \<longrightarrow>
          (\<exists>fl v. flag_column (g ! 0) = Some fl \<and> stoull fl = Inr v
             \<and> flag_column (out ! 0) = Some (to_string (v XOR 256)))
          \<and> (\<forall>i<length g. 0 < i \<longrightarrow> flag_column (out ! i) = flag_column (g ! i)))
    \<and> (g \<noteq> [] \<and> length (filter secondary_bit_clear g) \<le> 1 \<longrightarrow>
          length (filter secondary_bit_clear out) = 1)"
proof -
  have len: "length out = length g"
    using rewrite_group_lines [OF r] by simp
  have fc: "\<exists>fl v. flag_column (g ! i) = Some fl \<and> stoull fl = Inr v
      \<and> primary_flag (g ! i) = Inr (v AND 256 = 0)
      \<and> secondary_bit_clear (g ! i) = (v AND 256 = 0)
      \<and> flag_column (out ! i) = Some (if p = None \<and> i = 0 then to_string (v XOR 256) else fl)"
    if "i < length g" for i
  proof -
    from that fr have "flag_readable (g ! i)" by simp
    from flag_readable_facts [OF this] obtain a fl rest v where
      f: "split_tab (g ! i) = a # fl # rest" "stoull fl = Inr v" "flag_column (g ! i) = Some fl"
        "primary_flag (g ! i) = Inr (v AND 256 = 0)" "secondary_bit_clear (g ! i) = (v AND 256 = 0)"
      by (elim exE conjE)
    show ?thesis
      by (intro exI conjI) (rule f(3) f(2) f(4) f(5) rewrite_group_flag_column [OF r that f(3) f(2) f(1)])+
  qed
  have a: "\<forall>i<length g. flag_column (out ! i) = flag_column (g ! i)" if "p \<noteq> None"
    using fc that by fastforce
  have b1: "\<exists>fl v. flag_column (g ! 0) = Some fl \<and> stoull fl = Inr v
             \<and> flag_column (out ! 0) = Some (to_string (v XOR 256))"
    if "p = None" "g \<noteq> []"
    using fc [of 0] that by auto
  have b2: "\<forall>i<length g. 0 < i \<longrightarrow> flag_column (out ! i) = flag_column (g ! i)" if "p = None"
    using fc by fastforce
  have sbc: "secondary_bit_clear (out ! i) = (if p = None then i = 0 else secondary_bit_clear (g ! i))"
    if i: "i < length g" for i
  proof -
    from fc [OF i] obtain fl v where
      f: "flag_column (g ! i) = Some fl" "stoull fl = Inr v"
        "primary_flag (g ! i) = Inr (v AND 256 = 0)" "secondary_bit_clear (g ! i) = (v AND 256 = 0)"
        "flag_column (out ! i) = Some (if p = None \<and> i = 0 then to_string (v XOR 256) else fl)"
      by (elim exE conjE)
    show ?thesis
    proof (cases "p = None")
      case False
      then have "flag_column (out ! i) = Some fl" using f(5) by auto
      then have "secondary_bit_clear (out ! i) = (v AND 256 = 0)"
        using f(2) by (simp add: secondary_bit_clear_def)
      then show ?thesis using False f(4) by auto
    next
      case True
      then have "primary_flag (g ! i) = Inr False" using pn i by simp
      then have nz: "v AND 256 \<noteq> 0" using f(3) by simp
      show ?thesis
      proof (cases "i = 0")
        case True
        have s: "stoull (to_string (v XOR 256)) = Inr (v XOR 256)"
          using stoull_bound [OF f(2)] by (intro stoull_to_string xor_bound)
        have "flag_column (out ! i) = Some (to_string (v XOR 256))"
          using f(5) True \<open>p = None\<close> by simp
        then have "secondary_bit_clear (out ! i) = ((v XOR 256) AND 256 = 0)"
          using s by (simp add: secondary_bit_clear_def)
        then show ?thesis
          using True \<open>p = None\<close> xor_clears_bit [OF nz] by simp
      next
        case False
        then have "flag_column (out ! i) = Some fl" using f(5) by simp
        then have "secondary_bit_clear (out ! i) = (v AND 256 = 0)"
          using f(2) by (simp add: secondary_bit_clear_def)
        then show ?thesis
          using False \<open>p = None\<close> nz by simp
      qed
    qed
  qed
  have c: "length (filter secondary_bit_clear out) = 1"
    if ne: "g \<noteq> []" and le: "length (filter secondary_bit_clear g) \<le> 1"
  proof (cases "p = None")
    case True
    have "{i. i < length out \<and> secondary_bit_clear (out ! i)} = {0}"
      using sbc True ne len by auto
    then show ?thesis by (simp add: length_filter_conv_card)
  next
    case False
    have "{i. i < length out \<and> secondary_bit_clear (out ! i)}
        = {i. i < length g \<and> secondary_bit_clear (g ! i)}"
      using sbc False len by auto
    then have e: "length (filter secondary_bit_clear out) = length (filter secondary_bit_clear g)"
      by (simp add: length_filter_conv_card)
    from False pn obtain s where s: "s \<in> set g" "primary_flag s \<noteq> Inr False" by auto
    from flag_readable_facts [of s] fr s have "secondary_bit_clear s" by auto
    then have "filter secondary_bit_clear g \<noteq> []"
      using s(1) by (auto simp add: filter_empty_conv)
    then have "1 \<le> length (filter secondary_bit_clear g)"
      by (cases "filter secondary_bit_clear g") simp_all
    then show ?thesis using e le by simp
  qed
  show ?thesis using a b1 b2 c by blast
qed

lemma rewrite_parts_plain: "\<exists>fs'. rewrite_parts sz mq False i j fs = Inr fs'"
proof (induction fs arbitrary: j)
  case Nil
  then show ?case by simp
next
  case (Cons f fs)
  obtain f' where f: "rewrite_part sz mq False i j f = Inr f'"
    by (cases "rewrite_part sz mq False i j f") (auto simp add: rewrite_part_def split: if_splits)
  from Cons.IH [of "j + 1"] obtain fs' where "rewrite_parts sz mq False i (j + 1) fs = Inr fs'"
    by blast
  then show ?case using f by simp
qed

lemma rewrite_line_plain: "primary \<noteq> Some i \<Longrightarrow> \<exists>l. rewrite_line sz mq primary i line = Inr l"
  using rewrite_parts_plain [of sz mq i 1 "split_tab line"]
  by (auto simp add: rewrite_line_def)

lemma rewrite_lines_plain:
  "\<forall>t. primary \<noteq> Some (i + t) \<Longrightarrow> \<exists>out. rewrite_lines sz mq primary i g = (out, None)"
proof (induction g arbitrary: i)
  case Nil
  then show ?case by simp
next
  case (Cons x g)
  from Cons.prems have "primary \<noteq> Some (i + 0)" by blast
  then obtain l where l: "rewrite_line sz mq primary i x = Inr l"
    using rewrite_line_plain [of primary i sz mq x] by auto
  have "\<forall>t. primary \<noteq> Some (i + 1 + t)"
  proof
    fix t show "primary \<noteq> Some (i + 1 + t)" using Cons.prems [rule_format, of "Suc t"] by simp
  qed
  from Cons.IH [OF this] obtain out where "rewrite_lines sz mq primary (i + 1) g = (out, None)"
    by blast
  then show ?case using l by simp
qed

lemma rewrite_lines_abort:
  assumes "rewrite_lines sz mq primary 0 g = (out, Some a)"
    and "primary = None \<or> primary = Some 0"
  shows "out = []"
proof (cases g)
  case Nil
  then show ?thesis using assms(1) by simp
next
  case (Cons x g')
  show ?thesis
  proof (cases "rewrite_line sz mq primary 0 x")
    case (Inl e)
    then show ?thesis using assms(1) Cons by simp
  next
    case (Inr l)
    have "\<forall>t. primary \<noteq> Some (0 + 1 + t)" using assms(2) by auto
    then obtain out' where "rewrite_lines sz mq primary (0 + 1) g' = (out', None)"
      using rewrite_lines_plain [of primary "0 + 1"] by blast
    then show ?thesis using assms(1) Cons Inr by simp
  qed
qed

lemma rewrite_group_abort: "rewrite_group g p = (out, w, Some a) \<Longrightarrow> out = []"
  by (auto simp add: rewrite_group_def split: option.splits sum.splits prod.splits
      dest: rewrite_lines_abort)

lemma frr_step_abort: "frr_step line rest = Stop out a \<Longrightarrow> out = []"
  by (auto simp add: frr_step_def frr_group_def split: if_splits option.splits sum.splits
      prod.splits dest: rewrite_group_abort simp del: frr_collect.simps)

lemma sel_step_abort: "sel_step ids line rest = Stop out a \<Longrightarrow> out = []"
  by (auto simp add: sel_step_def sel_group_def split: if_splits option.splits sum.splits
      prod.splits dest: rewrite_group_abort simp del: sel_collect.simps)

lemma rewrite_group_renumbered:
  assumes "rewrite_group g p = (out, w, None)"
  shows "renumbered g out"
proof -
  have "length out = length g"
    using rewrite_group_lines [OF assms] by simp
  then show ?thesis
    unfolding renumbered_def using rewrite_group_fields [OF assms] by blast
qed

lemma rewrite_group_mapq_rewritten:
  assumes "rewrite_group g p = (out, w, None)"
  shows "mapq_rewritten g out"
proof -
  have "length out = length g"
    using rewrite_group_lines [OF assms] by simp
  then show ?thesis
    unfolding mapq_rewritten_def using rewrite_group_fields [OF assms] by blast
qed

lemma rewrite_group_primary_settled:
  assumes r: "rewrite_group g p = (out, w, None)"
    and fr: "\<forall>s\<in>set g. flag_readable s"
    and pn: "(p = None) = (\<forall>s\<in>set g. primary_flag s = Inr False)"
  shows "primary_settled g out"
proof -
  have len: "length out = length g"
    using rewrite_group_lines [OF r] by simp
  have b: "\<exists>b. primary_flag s = Inr b" if "s \<in> set g" for s
    using flag_readable_facts [of s] fr that by auto
  have e: "(\<exists>s\<in>set g. primary_flag s = Inr True) = (p \<noteq> None)"
    unfolding pn using b by (metis (full_types) Inr_inject)
  have w: "\<exists>cigars. cigars_of g = Inr cigars \<and> rewrite_group g None = (out, not_implemented cigars, None)"
    if "p = None"
    using rewrite_group_None [OF r] r that by auto
  show ?thesis
    unfolding primary_settled_def e
    using len rewrite_group_flags [OF r fr pn] w by (cases "p = None") auto
qed

section \<open>The claims on a group that lost a line\<close>

lemma renumbered_column:
  "renumbered g out \<Longrightarrow> i < length g \<Longrightarrow> j < length (split_tab (g ! i)) \<Longrightarrow>
   j \<noteq> 1 \<Longrightarrow> j \<noteq> 4 \<Longrightarrow> split_tab (g ! i) ! j \<noteq> [] \<Longrightarrow>
   split_tab (out ! i) ! j =
     (if starts_with ''NH:i:'' (split_tab (g ! i) ! j) then ''NH:i:'' @ to_string (length g)
      else if starts_with ''HI:i:'' (split_tab (g ! i) ! j) then ''HI:i:'' @ to_string (i + 1)
      else split_tab (g ! i) ! j)"
  by (simp add: renumbered_def)

lemma mapq_rewritten_column:
  "mapq_rewritten g out \<Longrightarrow> i < length g \<Longrightarrow> 4 < length (split_tab (g ! i)) \<Longrightarrow>
   split_tab (out ! i) ! 4 = to_string (mapq_value (length g))"
  by (simp add: mapq_rewritten_def)

lemma primary_settled_one:
  "primary_settled g out \<Longrightarrow> g \<noteq> [] \<Longrightarrow> length (filter secondary_bit_clear g) \<le> 1 \<Longrightarrow>
   length (filter secondary_bit_clear out) = 1"
  by (simp add: primary_settled_def)

lemmas sample_defs = rec_reverse_def rec_second_def rec_third_def out_first_def out_second_def

lemma sample_group_facts:
  "rec_reverse \<noteq> []" "hd rec_reverse \<noteq> CHR ''@''"
  "read_count rec_reverse = Some (Inr 3)"
  "frr_step rec_reverse [rec_second, rec_third] = Next [out_first, out_second] 2"
  "sel_step {''T1'', ''T2''} rec_reverse [rec_second, rec_third] = Next [out_first, out_second] 2"
  "frr_survivors rec_reverse [rec_second, rec_third] 3 = [rec_second, rec_third]"
  "sel_survivors {''T1'', ''T2''} rec_reverse [rec_second, rec_third] 3 = [rec_second, rec_third]"
  by (simp_all add: sample_defs frr_survivors_def sel_survivors_def eval_simps)

lemma sample_group_columns:
  "split_tab rec_second = [''read1'', ''256'', ''T1'', ''100'', ''0'', ''5M'', ''*'', ''0'', ''0'',
     ''ACGTA'', ''IIIII'', ''NH:i:3'', ''HI:i:2'']"
  "split_tab rec_third = [''read1'', ''256'', ''T2'', ''100'', ''0'', ''4M'', ''*'', ''0'', ''0'',
     ''ACGTA'', ''IIIII'', ''NH:i:3'', ''HI:i:3'']"
  by (simp_all add: sample_defs eval_simps)

lemma sample_group_flags:
  "flag_readable rec_second" "flag_readable rec_third"
  "secondary_bit_clear rec_second = False" "secondary_bit_clear rec_third = False"
  by (simp_all add: sample_defs flag_readable_def secondary_bit_clear_def flag_column_def eval_simps)

text \<open>
  C1: when a group of \<open>count > 1\<close> lines loses a line in \<^verbatim>\<open>filter_reverse_reads\<close> or in
  \<^verbatim>\<open>select_transcripts\<close> and the run goes on, one line is written for each kept line, in
  the order of the input; in every written line each \<^verbatim>\<open>NH:i:\<close> column holds the number of
  kept lines and each \<^verbatim>\<open>HI:i:\<close> column the rank of the line among the kept lines, from 1;
  the other columns, the second and the fifth apart, are written as they were read. When the
  run ends in the group instead, none of its lines is written.
\<close>

theorem reduced_group_is_renumbered:
  assumes "line \<noteq> []" and "hd line \<noteq> CHR ''@''"
    and "read_count line = Some (Inr count)" and "1 < count"
  shows "(frr_step line rest = Next out n \<and> length (frr_survivors line rest count) < count \<longrightarrow>
           renumbered (frr_survivors line rest count) out)
    \<and> (sel_step ids line rest = Next out n \<and> length (sel_survivors ids line rest count) < count \<longrightarrow>
           renumbered (sel_survivors ids line rest count) out)
    \<and> (frr_step line rest = Stop out a \<or> sel_step ids line rest = Stop out a \<longrightarrow> out = [])"
proof (intro conjI impI)
  assume a: "frr_step line rest = Next out n \<and> length (frr_survivors line rest count) < count"
  from frr_step_rewritten [OF _ assms, of rest out n] a
  obtain p w where "rewrite_group (frr_survivors line rest count) p = (out, w, None)"
    by blast
  then show "renumbered (frr_survivors line rest count) out"
    by (rule rewrite_group_renumbered)
next
  assume a: "sel_step ids line rest = Next out n \<and> length (sel_survivors ids line rest count) < count"
  from sel_step_rewritten [OF _ assms, of ids rest out n] a
  obtain p w where "rewrite_group (sel_survivors ids line rest count) p = (out, w, None)"
    by blast
  then show "renumbered (sel_survivors ids line rest count) out"
    by (rule rewrite_group_renumbered)
next
  assume "frr_step line rest = Stop out a \<or> sel_step ids line rest = Stop out a"
  then show "out = []"
    using frr_step_abort sel_step_abort by blast
qed

theorem reduced_group_is_renumbered_witness:
  "read_count rec_reverse = Some (Inr 3)
   \<and> frr_step rec_reverse [rec_second, rec_third] = Next [out_first, out_second] 2
   \<and> sel_step {''T1'', ''T2''} rec_reverse [rec_second, rec_third] = Next [out_first, out_second] 2
   \<and> length (frr_survivors rec_reverse [rec_second, rec_third] 3) = 2
   \<and> length (sel_survivors {''T1'', ''T2''} rec_reverse [rec_second, rec_third] 3) = 2
   \<and> split_tab out_first ! 11 = ''NH:i:2'' \<and> split_tab out_first ! 12 = ''HI:i:1''
   \<and> split_tab out_second ! 11 = ''NH:i:2'' \<and> split_tab out_second ! 12 = ''HI:i:2''
   \<and> split_tab out_second ! 2 = ''T2''"
proof -
  note f = sample_group_facts
  have h4: "(1::nat) < 3" by simp
  have k: "length (frr_survivors rec_reverse [rec_second, rec_third] 3) < 3"
    "length (sel_survivors {''T1'', ''T2''} rec_reverse [rec_second, rec_third] 3) < 3"
    by (simp_all add: f)
  note t = reduced_group_is_renumbered [OF f(1) f(2) f(3) h4, of "[rec_second, rec_third]"
      "[out_first, out_second]" 2 "{''T1'', ''T2''}"]
  from t f(4) k(1)
  have "renumbered (frr_survivors rec_reverse [rec_second, rec_third] 3) [out_first, out_second]"
    by blast
  then have r: "renumbered [rec_second, rec_third] [out_first, out_second]"
    unfolding f(6) .
  from t f(5) k(2)
  have "renumbered (sel_survivors {''T1'', ''T2''} rec_reverse [rec_second, rec_third] 3)
      [out_first, out_second]"
    by blast
  then have r': "renumbered [rec_second, rec_third] [out_first, out_second]"
    unfolding f(7) .
  have a: "split_tab out_first ! 11 = ''NH:i:2''"
    using renumbered_column [OF r, of 0 11] by (simp add: sample_group_columns to_string.simps digit_char_def)
  have b: "split_tab out_first ! 12 = ''HI:i:1''"
    using renumbered_column [OF r, of 0 12] by (simp add: sample_group_columns to_string.simps digit_char_def)
  have c: "split_tab out_second ! 11 = ''NH:i:2''"
    using renumbered_column [OF r', of 1 11] by (simp add: sample_group_columns to_string.simps digit_char_def)
  have d: "split_tab out_second ! 12 = ''HI:i:2''"
    using renumbered_column [OF r', of 1 12] by (simp add: sample_group_columns to_string.simps digit_char_def)
  have e: "split_tab out_second ! 2 = ''T2''"
    using renumbered_column [OF r', of 1 2] by (simp add: sample_group_columns)
  show ?thesis using f a b c d e by simp
qed

text \<open>
  C3: under the same conditions the fifth column of every written line is the decimal text
  of \<open>mapq_value k\<close> for the number \<open>k\<close> of kept lines: 255 for \<open>k \<le> 1\<close>, and otherwise the
  integer part of \<open>-10 * log\<^sub>1\<^sub>0 (1 - 1/k)\<close>, which is 3 for \<open>k = 2\<close> and 1 for \<open>k = 3\<close> and
  \<open>k = 4\<close> (rounding to the nearest integer would give 2 for \<open>k = 3\<close>).
\<close>

theorem mapq_of_reduced_group:
  assumes "line \<noteq> []" and "hd line \<noteq> CHR ''@''"
    and "read_count line = Some (Inr count)" and "1 < count"
  shows "(frr_step line rest = Next out n \<and> length (frr_survivors line rest count) < count \<longrightarrow>
           mapq_rewritten (frr_survivors line rest count) out)
    \<and> (sel_step ids line rest = Next out n \<and> length (sel_survivors ids line rest count) < count \<longrightarrow>
           mapq_rewritten (sel_survivors ids line rest count) out)
    \<and> mapq_value k = (if k \<le> 1 then 255 else nat \<lfloor>- 10 * log 10 (1 - 1 / real k)\<rfloor>)
    \<and> mapq_value 1 = 255 \<and> mapq_value 2 = 3 \<and> mapq_value 3 = 1 \<and> mapq_value 4 = 1"
proof (intro conjI impI)
  assume a: "frr_step line rest = Next out n \<and> length (frr_survivors line rest count) < count"
  from frr_step_rewritten [OF _ assms, of rest out n] a
  obtain p w where "rewrite_group (frr_survivors line rest count) p = (out, w, None)"
    by blast
  then show "mapq_rewritten (frr_survivors line rest count) out"
    by (rule rewrite_group_mapq_rewritten)
next
  assume a: "sel_step ids line rest = Next out n \<and> length (sel_survivors ids line rest count) < count"
  from sel_step_rewritten [OF _ assms, of ids rest out n] a
  obtain p w where "rewrite_group (sel_survivors ids line rest count) p = (out, w, None)"
    by blast
  then show "mapq_rewritten (sel_survivors ids line rest count) out"
    by (rule rewrite_group_mapq_rewritten)
next
  show "mapq_value k = (if k \<le> 1 then 255 else nat \<lfloor>- 10 * log 10 (1 - 1 / real k)\<rfloor>)"
    by (simp add: mapq_value_def)
  show "mapq_value 1 = 255" by (simp add: mapq_value_le_1)
  show "mapq_value 2 = 3" by (rule mapq_value_2)
  show "mapq_value 3 = 1" by (rule mapq_value_3)
  show "mapq_value 4 = 1" by (rule mapq_value_4)
qed

theorem mapq_of_reduced_group_witness:
  "read_count rec_reverse = Some (Inr 3)
   \<and> frr_step rec_reverse [rec_second, rec_third] = Next [out_first, out_second] 2
   \<and> sel_step {''T1'', ''T2''} rec_reverse [rec_second, rec_third] = Next [out_first, out_second] 2
   \<and> length (frr_survivors rec_reverse [rec_second, rec_third] 3) = 2
   \<and> length (sel_survivors {''T1'', ''T2''} rec_reverse [rec_second, rec_third] 3) = 2
   \<and> split_tab out_first ! 4 = ''3'' \<and> split_tab out_second ! 4 = ''3''"
proof -
  note f = sample_group_facts
  have h4: "(1::nat) < 3" by simp
  have k: "length (frr_survivors rec_reverse [rec_second, rec_third] 3) < 3"
    "length (sel_survivors {''T1'', ''T2''} rec_reverse [rec_second, rec_third] 3) < 3"
    by (simp_all add: f)
  note t = mapq_of_reduced_group [OF f(1) f(2) f(3) h4, of "[rec_second, rec_third]"
      "[out_first, out_second]" 2 "{''T1'', ''T2''}" 2]
  from t f(4) k(1)
  have "mapq_rewritten (frr_survivors rec_reverse [rec_second, rec_third] 3) [out_first, out_second]"
    by blast
  then have r: "mapq_rewritten [rec_second, rec_third] [out_first, out_second]"
    unfolding f(6) .
  from t f(5) k(2)
  have "mapq_rewritten (sel_survivors {''T1'', ''T2''} rec_reverse [rec_second, rec_third] 3)
      [out_first, out_second]"
    by blast
  then have r': "mapq_rewritten [rec_second, rec_third] [out_first, out_second]"
    unfolding f(7) .
  from t have "mapq_value 2 = 3" by blast
  then have m: "mapq_value (Suc (Suc 0)) = 3" by (simp add: numeral_2_eq_2)
  have three: "to_string 3 = ''3''"
    by (simp add: to_string.simps digit_char_def)
  have "split_tab ([out_first, out_second] ! 0) ! 4
      = to_string (mapq_value (length [rec_second, rec_third]))"
    by (rule mapq_rewritten_column [OF r]) (simp_all add: sample_group_columns)
  then have a: "split_tab out_first ! 4 = ''3''"
    by (simp add: m three)
  have "split_tab ([out_first, out_second] ! 1) ! 4
      = to_string (mapq_value (length [rec_second, rec_third]))"
    by (rule mapq_rewritten_column [OF r']) (simp_all add: sample_group_columns)
  then have b: "split_tab out_second ! 4 = ''3''"
    by (simp add: m three)
  show ?thesis using f a b by simp
qed

text \<open>
  C2, as the code has it: when a group of \<open>count > 1\<close> lines loses a line and the run goes
  on, the FLAGs of the written lines are as \<open>primary_settled\<close> says. If a kept line was
  primary, no FLAG changes; otherwise the first written line gets its FLAG with the bit 256
  flipped and the others keep theirs, whether or not the CIGARs differ. Exactly one written
  line has the bit 256 clear provided that at most one kept line had it clear: the code
  does not look for a second primary line. For \<^verbatim>\<open>select_transcripts\<close> the kept lines must
  have a FLAG that \<open>check_flag\<close> can read, which \<^verbatim>\<open>filter_reverse_reads\<close> ensures itself.
\<close>

theorem primary_of_reduced_group:
  assumes "line \<noteq> []" and "hd line \<noteq> CHR ''@''"
    and "read_count line = Some (Inr count)" and "1 < count"
  shows "(frr_step line rest = Next out n \<and> length (frr_survivors line rest count) < count \<longrightarrow>
           primary_settled (frr_survivors line rest count) out)
    \<and> (sel_step ids line rest = Next out n \<and> length (sel_survivors ids line rest count) < count
         \<and> (\<forall>s\<in>set (sel_survivors ids line rest count). flag_readable s) \<longrightarrow>
           primary_settled (sel_survivors ids line rest count) out)"
proof (intro conjI impI)
  assume a: "frr_step line rest = Next out n \<and> length (frr_survivors line rest count) < count"
  from frr_step_rewritten [OF _ assms, of rest out n] a
  obtain p w where r: "rewrite_group (frr_survivors line rest count) p = (out, w, None)"
    and pn: "(p = None) = (\<forall>s\<in>set (frr_survivors line rest count). primary_flag s = Inr False)"
    and f: "\<forall>s\<in>set (frr_survivors line rest count). forward_flag s = Inr True"
    by blast
  from f have "\<forall>s\<in>set (frr_survivors line rest count). flag_readable s"
    using forward_flag_readable by blast
  from rewrite_group_primary_settled [OF r this pn]
  show "primary_settled (frr_survivors line rest count) out" .
next
  assume a: "sel_step ids line rest = Next out n \<and> length (sel_survivors ids line rest count) < count
         \<and> (\<forall>s\<in>set (sel_survivors ids line rest count). flag_readable s)"
  from sel_step_rewritten [OF _ assms, of ids rest out n] a
  obtain p w where r: "rewrite_group (sel_survivors ids line rest count) p = (out, w, None)"
    and pn: "(p = None) = (\<forall>s\<in>set (sel_survivors ids line rest count). primary_flag s = Inr False)"
    by blast
  from a have "\<forall>s\<in>set (sel_survivors ids line rest count). flag_readable s" by blast
  from rewrite_group_primary_settled [OF r this pn]
  show "primary_settled (sel_survivors ids line rest count) out" .
qed

theorem primary_of_reduced_group_witness:
  "read_count rec_reverse = Some (Inr 3)
   \<and> frr_step rec_reverse [rec_second, rec_third] = Next [out_first, out_second] 2
   \<and> sel_step {''T1'', ''T2''} rec_reverse [rec_second, rec_third] = Next [out_first, out_second] 2
   \<and> length (frr_survivors rec_reverse [rec_second, rec_third] 3) = 2
   \<and> length (sel_survivors {''T1'', ''T2''} rec_reverse [rec_second, rec_third] 3) = 2
   \<and> flag_readable rec_second \<and> flag_readable rec_third
   \<and> length (filter secondary_bit_clear [rec_second, rec_third]) = 0
   \<and> length (filter secondary_bit_clear [out_first, out_second]) = 1"
proof -
  note f = sample_group_facts
  have h4: "(1::nat) < 3" by simp
  note g = sample_group_flags
  have k: "length (frr_survivors rec_reverse [rec_second, rec_third] 3) < 3"
    "length (sel_survivors {''T1'', ''T2''} rec_reverse [rec_second, rec_third] 3) < 3"
    by (simp_all add: f)
  note t = primary_of_reduced_group [OF f(1) f(2) f(3) h4, of "[rec_second, rec_third]"
      "[out_first, out_second]" 2 "{''T1'', ''T2''}"]
  from t f(4) k(1)
  have "primary_settled (frr_survivors rec_reverse [rec_second, rec_third] 3) [out_first, out_second]"
    by blast
  then have r: "primary_settled [rec_second, rec_third] [out_first, out_second]"
    unfolding f(6) .
  have "\<forall>s\<in>set (sel_survivors {''T1'', ''T2''} rec_reverse [rec_second, rec_third] 3).
      flag_readable s"
    unfolding f(7) using g(1,2) by simp
  with t f(5) k(2)
  have "primary_settled (sel_survivors {''T1'', ''T2''} rec_reverse [rec_second, rec_third] 3)
      [out_first, out_second]"
    by blast
  then have r': "primary_settled [rec_second, rec_third] [out_first, out_second]"
    unfolding f(7) .
  have z: "length (filter secondary_bit_clear [rec_second, rec_third]) = 0"
    by (simp add: g)
  have "length (filter secondary_bit_clear [out_first, out_second]) = 1"
    using primary_settled_one [OF r'] z by simp
  then show ?thesis using f g z by simp
qed

text \<open>The claim C2 as stated fails: two kept lines without the bit 256 are both written
  without it.\<close>

theorem two_primaries_survive:
  "read_count two_primary_first = Some (Inr 3)
   \<and> frr_survivors two_primary_first [two_primary_second, two_primary_reverse] 3
       = [two_primary_first, two_primary_second]
   \<and> frr_step two_primary_first [two_primary_second, two_primary_reverse] = Next two_primary_out 2
   \<and> length (filter secondary_bit_clear two_primary_out) = 2"
  by (simp add: two_primary_first_def two_primary_second_def two_primary_reverse_def
      two_primary_out_def frr_survivors_def secondary_bit_clear_def flag_column_def eval_simps)

section \<open>Lines with a single column in the reverse-strand filter\<close>












section \<open>Header lines\<close>









text \<open>
  A line that starts with \<^verbatim>\<open>@\<close> but is read inside a group, as one of the lines that the
  multiplicity of the first line announces, is not looked at as a header: here
  \<^verbatim>\<open>filter_reverse_reads\<close> counts it as a line of the group and leaves it out.
\<close>

lemma header_like_line_inside_group:
  "hd (''@CO'' @ TAB # ''note'') = CHR ''@''
   \<and> run frr_step [sam_line ''0'' ''T1'' ''5M'' ''2'' ''1'', ''@CO'' @ TAB # ''note'']
      = ([join_tab [''read1'', ''0'', ''T1'', ''100'', ''255'', ''5M'', ''*'', ''0'', ''0'',
                    ''ACGTA'', ''IIIII'', ''NH:i:1'', ''HI:i:1'']], None)"
  by (simp add: eval_simps)

end
